theory Spec2Isabelle
  imports Main
begin

section \<open>Failures and the error classifier (Test.liftToStructuredError)\<close>

text \<open>
  A raised JavaScript failure, with the properties the engine reads: \<open>error.name\<close>,
  \<open>error.message\<close>, \<open>error.stack\<close>, the marker \<open>_structured\<close> of a StructuredError, its
  data tag \<open>_kind\<close>, the originating phase and the wrapped original failure. A property that
  is absent (\<open>undefined\<close>) is \<open>None\<close>.
\<close>

datatype JsError = JsError
  (err_name: string)
  (err_message: string)
  (err_stack: string)
  (err_structured: "string option")
  (data_kind: "string option")
  (err_source: "string option")
  (originalError: "JsError option")

text \<open>\<open>String.prototype.startsWith\<close>.\<close>

definition startsWith :: "string \<Rightarrow> string \<Rightarrow> bool" where
  "startsWith s p = (take (length p) s = p)"

text \<open>
  Modelled from the spec: the class StructuredError (utils/StructuredError) is not among the
  sources. The spec gives a StructuredError the fields message, kind tag, originalError and
  stackCopy, and the marker that the classifier tests; \<open>copyStackFromOriginalError\<close> copies
  the stack of the original failure, and \<open>wrapBareError\<close> wraps a bare failure with a kind
  tag and an originating-phase tag.
\<close>

definition newStructuredError :: "string \<Rightarrow> string \<Rightarrow> JsError \<Rightarrow> JsError" where
  "newStructuredError message kind original =
     JsError ''Error'' message [] (Some ''yes'') (Some kind) None (Some original)"

definition copyStackFromOriginalError :: "JsError \<Rightarrow> JsError" where
  "copyStackFromOriginalError e =
     (case originalError e of
        None \<Rightarrow> e
      | Some orig \<Rightarrow>
          JsError (err_name e) (err_message e) (err_stack orig) (err_structured e)
            (data_kind e) (err_source e) (originalError e))"

definition wrapBareError :: "JsError \<Rightarrow> string \<Rightarrow> string \<Rightarrow> JsError" where
  "wrapBareError error kind source =
     JsError ''Error'' (err_message error) (err_stack error) (Some ''yes'') (Some kind)
       (Some source) (Some error)"

text \<open>Test.liftToStructuredError: the three branches in the order of the source.\<close>

definition liftToStructuredError :: "JsError \<Rightarrow> JsError" where
  "liftToStructuredError error =
     (if startsWith (err_name error) ''AssertionError'' then
        copyStackFromOriginalError (newStructuredError (err_message error) ''assertion'' error)
      else if err_structured error = Some ''yes'' then error
      else wrapBareError error ''empty'' ''test'')"

section \<open>The Looper (Runner.ts)\<close>

text \<open>
  The two fields of ConcreteTestSettings that the Looper reads. JavaScript numbers are
  modelled as unbounded integers: counters and counts are whole numbers far below
  \<open>2 ^ 53\<close>.
\<close>

record LoopSettings =
  duration :: int
  loopCount :: int

text \<open>
  The Looper object. \<open>timeoutArmed\<close> says that the constructor armed the duration timer
  (and \<open>finish\<close> has not cleared it).
\<close>

record Looper =
  iterations :: int
  timeoutArmed :: bool
  cancelled :: bool
  looperCount :: int

definition newLooper :: "LoopSettings \<Rightarrow> bool \<Rightarrow> Looper" where
  "newLooper settings running =
     \<lparr> iterations = 0,
       timeoutArmed = (duration settings > 0),
       cancelled = (\<not> running),
       looperCount = loopCount settings \<rparr>"

definition stop :: "Looper \<Rightarrow> Looper" where
  "stop l = l\<lparr>cancelled := True\<rparr>"

definition finish :: "Looper \<Rightarrow> Looper" where
  "finish l = l\<lparr>timeoutArmed := False\<rparr>"

definition continueLoop :: "Looper \<Rightarrow> bool" where
  "continueLoop l =
     (let hasInfiniteLoops = (looperCount l \<le> 0);
          hasLoopsLeft = (iterations l < looperCount l)
      in \<not> cancelled l \<and> (hasLoopsLeft \<or> hasInfiniteLoops))"

text \<open>
  One awaited call of the iterator. The callback works on a state of its own, \<open>'s\<close>; its
  promise either fulfils or rejects. While the call is awaited somebody may call
  \<open>stop()\<close>: the flag of \<open>Resolved\<close> says so.
\<close>

datatype 's iterOutcome = Resolved 's bool | Rejected JsError 's

text \<open>
  Looper.run. The loop may run forever, so the function is partial: \<open>None\<close> is "does not
  return". \<open>Inl e\<close> is the rejection of the iterator, which \<open>await\<close> re-raises; \<open>Inr n\<close> is
  the returned number of iterations. The duration timer fires between two checks of the
  loop condition: \<open>timer k\<close> says that it has fired by the time call \<open>k\<close> has settled, and
  it can only fire when it is armed.
\<close>

partial_function (option) looper_run ::
  "(int \<Rightarrow> 's \<Rightarrow> 's iterOutcome) \<Rightarrow> (int \<Rightarrow> bool) \<Rightarrow> Looper \<Rightarrow> 's
     \<Rightarrow> ((JsError + int) \<times> Looper \<times> 's) option"
where
  "looper_run iterator timer l s =
     (if continueLoop l then
        (let l1 = l\<lparr>iterations := iterations l + 1\<rparr> in
         case iterator (iterations l1) s of
           Rejected e s' \<Rightarrow> Some (Inl e, l1, s')
         | Resolved s' stopCalled \<Rightarrow>
             looper_run iterator timer
               (l1\<lparr>cancelled := cancelled l1 \<or> stopCalled
                                  \<or> (timeoutArmed l1 \<and> timer (iterations l1))\<rparr>) s')
      else Some (Inr (iterations l), finish l, s))"

text \<open>The state the iterator leaves behind, whatever its outcome.\<close>

definition iterState :: "(int \<Rightarrow> 's \<Rightarrow> 's iterOutcome) \<Rightarrow> int \<Rightarrow> 's \<Rightarrow> 's" where
  "iterState iterator k s = (case iterator k s of Resolved s' _ \<Rightarrow> s' | Rejected _ s' \<Rightarrow> s')"

text \<open>The iterator settles normally and nobody calls \<open>stop()\<close> meanwhile.\<close>

definition completes :: "(int \<Rightarrow> 's \<Rightarrow> 's iterOutcome) \<Rightarrow> bool" where
  "completes iterator = (\<forall>k s. iterator k s = Resolved (iterState iterator k s) False)"

text \<open>The iterator never reports a \<open>stop()\<close> call, and never rejects.\<close>

definition neverStops :: "(int \<Rightarrow> 's \<Rightarrow> 's iterOutcome) \<Rightarrow> bool" where
  "neverStops iterator = (\<forall>k s s'. iterator k s \<noteq> Resolved s' True)"

definition neverRejects :: "(int \<Rightarrow> 's \<Rightarrow> 's iterOutcome) \<Rightarrow> bool" where
  "neverRejects iterator = (\<forall>k s e s'. iterator k s \<noteq> Rejected e s')"

text \<open>
  The same iterator, keeping a log of the iteration numbers it was called with: the log
  is how a statement counts the calls.
\<close>

definition recording ::
  "(int \<Rightarrow> 's \<Rightarrow> 's iterOutcome) \<Rightarrow> int \<Rightarrow> int list \<times> 's \<Rightarrow> (int list \<times> 's) iterOutcome" where
  "recording iterator k ls =
     (case iterator k (snd ls) of
        Resolved s' stopCalled \<Rightarrow> Resolved (fst ls @ [k], s') stopCalled
      | Rejected e s' \<Rightarrow> Rejected e (fst ls @ [k], s'))"

section \<open>Steps, settings and the summary (runtime/Test)\<close>

text \<open>
  Settings and step options are JavaScript objects: maps from property names to values,
  an absent property being \<open>None\<close>. The object spread \<open>{ ...a, ...b }\<close> is \<open>a ++ b\<close>. A
  repeat descriptor is the object \<open>{count, iteration}\<close>; \<open>VObject\<close> is any other object
  or function (a predicate, a header table), of which the engine only tests the presence.
\<close>

record Repeat =
  count :: int
  iteration :: int

datatype val = VBool bool | VNum int | VStr string | VRepeat Repeat | VObject

type_synonym settingsObj = "string \<rightharpoonup> val"

text \<open>JavaScript truthiness, as \<open>if (x)\<close> tests it.\<close>

fun truthy :: "val option \<Rightarrow> bool" where
  "truthy None = False"
| "truthy (Some (VBool b)) = b"
| "truthy (Some (VNum n)) = (n \<noteq> 0)"
| "truthy (Some (VStr s)) = (s \<noteq> [])"
| "truthy (Some (VRepeat r)) = True"
| "truthy (Some VObject) = True"

datatype StepResult = PASSED | FAILED | SKIPPED | UNEXECUTED

record SummaryStep =
  stepName :: string
  result :: StepResult

text \<open>
  What the engine tells its collaborators, in the order of the calls: the client, the
  request interceptor, the browser, the observer chain, the hooks, the step iterator and
  the step bodies. The history is what a hook or a step body can depend on, and it is
  where a statement reads which calls were made.
\<close>

datatype event =
    ReopenPage
  | InterceptorAttach
  | InterceptorDetach
  | BrowserDirective string
  | ObserverBefore
  | ObserverAfter
  | TestDataFeed
  | HookCall int
  | ObserverBeforeStep string
  | StepFnCall string settingsObj
  | ObserverStepPassed string
  | ObserverStepError string JsError
  | ObserverAfterStep string
  | StepDelay int
  | CallRecovery string int
  | LoopUnexecutedSteps

record StepProp =
  executed :: bool

text \<open>
  A step: its name, its body, its options and the scratch record \<open>step.prop\<close>. The body
  is called with the browser, of which it sees the settings and the history; it returns
  the failure it raised, if any, and the settings object it leaves on the browser.
\<close>

record Step =
  name :: string
  fn :: "settingsObj \<Rightarrow> event list \<Rightarrow> JsError option \<times> settingsObj"
  options :: settingsObj
  stepProp :: "StepProp option"

definition repeatOf :: "settingsObj \<Rightarrow> Repeat option" where
  "repeatOf opts = (case opts ''repeat'' of Some (VRepeat r) \<Rightarrow> Some r | _ \<Rightarrow> None)"

definition unexecutedRow :: "Step \<Rightarrow> SummaryStep" where
  "unexecutedRow step = \<lparr> stepName = name step, result = UNEXECUTED \<rparr>"

subsection \<open>Test.summarizeStepAfterStopRunning\<close>

text \<open>
  The \<open>do ... while\<close> of countRepeatStep: the body runs once before the condition is
  tested.
\<close>

function countRepeatLoop :: "Step \<Rightarrow> Repeat \<Rightarrow> SummaryStep list \<Rightarrow> Repeat \<times> SummaryStep list" where
  "countRepeatLoop step r summ =
     (let r1 = r\<lparr>iteration := iteration r + 1\<rparr>;
          summ1 = summ @ [unexecutedRow step]
      in if iteration r1 < count r1 then countRepeatLoop step r1 summ1 else (r1, summ1))"
  by pat_completeness auto
termination
  by (relation "measure (\<lambda>(step, r, summ). nat (count r - iteration r))") auto

definition countRepeatStep :: "Step \<Rightarrow> SummaryStep list \<Rightarrow> bool \<times> Step \<times> SummaryStep list" where
  "countRepeatStep step summ =
     (case repeatOf (options step) of
        Some r \<Rightarrow>
          (let (r1, summ1) = (if iteration r > 0 then countRepeatLoop step r summ else (r, summ))
           in (True,
               step\<lparr>options := (options step)(''repeat'' \<mapsto> VRepeat (r1\<lparr>iteration := 0\<rparr>))\<rparr>,
               summ1))
      | None \<Rightarrow> (False, step, summ))"

definition summarizedUnexecutedStep :: "Step \<Rightarrow> SummaryStep list \<Rightarrow> Step \<times> SummaryStep list" where
  "summarizedUnexecutedStep step summ =
     (let (countRepeatStepDone, step1, summ1) = countRepeatStep step summ
      in if countRepeatStepDone then (step1, summ1)
         else (step1, summ1 @ [unexecutedRow step1]))"

text \<open>
  Modelled from the spec: StepIterator.loopUnexecutedSteps (runtime/StepIterator) is not
  among the sources. The spec has it called once per iteration, after the traversal
  halts, to visit every step not reached, in the declared order.
\<close>

fun loopUnexecutedSteps ::
  "(Step \<Rightarrow> 'a \<Rightarrow> Step \<times> 'a) \<Rightarrow> Step list \<Rightarrow> 'a \<Rightarrow> Step list \<times> 'a" where
  "loopUnexecutedSteps visit [] acc = ([], acc)"
| "loopUnexecutedSteps visit (step # unreached) acc =
     (let (step1, acc1) = visit step acc;
          (rest, acc2) = loopUnexecutedSteps visit unreached acc1
      in (step1 # rest, acc2))"

text \<open>The number of UNEXECUTED rows among the rows of a summary that name a step.\<close>

definition unexecutedRows :: "string \<Rightarrow> SummaryStep list \<Rightarrow> nat" where
  "unexecutedRows nm summ =
     length (filter (\<lambda>row. stepName row = nm \<and> result row = UNEXECUTED) summ)"

section \<open>One iteration of the engine (Test.runWithCancellation)\<close>

text \<open>
  A hook: its function and its wait timeout. The hook function is raced against a timer
  of \<open>waitTimeout\<close> seconds (doHookFnWithTimeout): it settles in time, raises, or loses the
  race, and then the timer rejects with no reason.
\<close>

datatype hookOutcome = HookOk | HookThrows JsError | HookTimeout

record HookBase =
  hook_fn :: "settingsObj \<Rightarrow> event list \<Rightarrow> hookOutcome"
  waitTimeout :: int

record Hook =
  beforeAll :: "HookBase list"
  afterAll :: "HookBase list"
  beforeEach :: "HookBase list"
  afterEach :: "HookBase list"

text \<open>
  A call of runStep that the engine has stopped waiting for: the name of the step, the
  copy of the browser settings that its \<open>finally\<close> block will put back, and the failure
  its body raises, if any, when it settles.
\<close>

record Pending =
  pendingStep :: string
  savedSettings :: settingsObj
  pendingError :: "JsError option"

text \<open>
  The Test object with the browser it drives and the cancellation token it was given.
  \<open>browserSettings\<close> is \<open>browser.settings\<close>, \<open>customContext\<close> is the name of the step in
  \<open>browser.customContext\<close>, \<open>cancelRequested\<close> is \<open>cancelToken.isCancellationRequested\<close>,
  \<open>pending\<close> holds the calls of runStep that lost their race and have not settled,
  \<open>history\<close> is the list of the calls made so far. The fields that only serve the
  reports (\<open>subTitle\<close>, \<open>runningBrowser\<close>, \<open>reporter\<close>) and the console output are left
  out.
\<close>

record TestState =
  settings :: settingsObj
  steps :: "Step list"
  hook :: Hook
  recoverySteps :: "string \<rightharpoonup> string list"
  failed :: bool
  summaryStep :: "SummaryStep list"
  browserSettings :: settingsObj
  customContext :: "string option"
  interceptorAttached :: bool
  cancelRequested :: bool
  pending :: "Pending list"
  history :: "event list"

text \<open>
  How the race of a step body against the cancellation signal ends: the body settles and
  no cancellation is requested; the body settles first and the cancellation is requested
  before the engine tests the token; or the cancellation signal wins.
\<close>

datatype raceOutcome = BodySettles | CancelAfterSettle | CancelWins

text \<open>
  What the iteration does not decide itself: whether the awaited calls of the client and
  of the interceptor before the \<open>try\<close> block, of the interceptor and of the observer in
  the \<open>finally\<close> block reject (\<open>Some\<close> the failure); whether the data feeder has a record;
  what the collaborator StepIterator answers for a step (its sources are absent); how each
  race ends; and, for a body that lost its race, whether it has settled by the time the
  engine awaits something, given the history so far.
\<close>

record Env =
  reopenPage :: "JsError option"
  attach :: "JsError option"
  feed :: bool
  callCondition :: "Step \<Rightarrow> int \<Rightarrow> bool"
  callPredicate :: "Step \<Rightarrow> bool"
  recoveryCompletes :: "Step \<Rightarrow> int \<Rightarrow> bool"
  cancelRace :: "Step \<Rightarrow> raceOutcome"
  settles :: "string \<Rightarrow> event list \<Rightarrow> bool"
  detach :: "JsError option"
  observerAfter :: "JsError option"

datatype outcome = Normal | Thrown JsError

definition emit :: "event list \<Rightarrow> TestState \<Rightarrow> TestState" where
  "emit evs st = st\<lparr>history := history st @ evs\<rparr>"

definition pushSummary :: "string \<Rightarrow> StepResult \<Rightarrow> TestState \<Rightarrow> TestState" where
  "pushSummary nm r st = st\<lparr>summaryStep := summaryStep st @ [\<lparr> stepName = nm, result = r \<rparr>]\<rparr>"

text \<open>\<open>new Error(message)\<close> and \<open>Error.prototype.toString\<close>.\<close>

definition newError :: "string \<Rightarrow> JsError" where
  "newError message = JsError ''Error'' message [] None None None None"

definition errorToString :: "JsError \<Rightarrow> string" where
  "errorToString e =
     (if err_name e = [] then err_message e
      else if err_message e = [] then err_name e
      else err_name e @ '': '' @ err_message e)"

text \<open>
  Test.runHookFn: before each hook the browser gets a fresh copy of the global settings
  with the hook's wait timeout; whatever a hook raises is raised again as a new Error.
\<close>

fun runHookFn :: "HookBase list \<Rightarrow> TestState \<Rightarrow> outcome \<times> TestState" where
  "runHookFn [] st = (Normal, st)"
| "runHookFn (h # hooks) st =
     (let st1 = st\<lparr>browserSettings := (settings st)(''waitTimeout'' \<mapsto> VNum (waitTimeout h))\<rparr>;
          st2 = emit [HookCall (waitTimeout h)] st1
      in case hook_fn h (browserSettings st1) (history st1) of
           HookOk \<Rightarrow> runHookFn hooks st2
         | HookThrows e \<Rightarrow> (Thrown (newError (errorToString e)), st2)
         | HookTimeout \<Rightarrow> (Thrown (newError []), st2))"

text \<open>Test.summarizeStepBeforeRun.\<close>

definition summarizeStepBeforeRun :: "Step \<Rightarrow> int \<Rightarrow> TestState \<Rightarrow> TestState" where
  "summarizeStepBeforeRun step iterationNumber st =
     (let skip = options step ''skip'';
          pending = options step ''pending'';
          once = options step ''once''
      in if truthy pending \<or> (truthy once \<and> iterationNumber > 1) then
           pushSummary (name step) UNEXECUTED st
         else if truthy skip then pushSummary (name step) SKIPPED st
         else st)"

text \<open>
  Test.doStepDelay: no delay while the test is failing (\<open>skipping\<close>) or when the step
  delay, a number, is not positive.
\<close>

definition doStepDelay :: "TestState \<Rightarrow> TestState" where
  "doStepDelay st =
     (case settings st ''stepDelay'' of
        Some (VNum d) \<Rightarrow> if failed st \<or> d \<le> 0 then st else emit [StepDelay d] st
      | _ \<Rightarrow> st)"

text \<open>
  Test.runStep. The settings of the browser are saved, replaced for the body by the
  global settings merged with the options of the step, and put back in the \<open>finally\<close>
  block, where \<open>step.prop\<close> is set too. Then the outcome is recorded.
\<close>

definition runStep :: "Step \<Rightarrow> TestState \<Rightarrow> Step \<times> TestState" where
  "runStep step st =
     (let st1 = emit [ObserverBeforeStep (name step)] st;
          originalBrowserSettings = browserSettings st1;
          st2 = st1\<lparr>browserSettings := settings st1 ++ options step\<rparr>;
          (error, left) = fn step (browserSettings st2) (history st2);
          st3 = (emit [StepFnCall (name step) (browserSettings st2)] st2)\<lparr>browserSettings := left\<rparr>;
          st4 = st3\<lparr>browserSettings := originalBrowserSettings\<rparr>;
          step1 = step\<lparr>stepProp :=
                    Some \<lparr> executed = (case repeatOf (options step) of
                                          Some r \<Rightarrow> iteration r = 0
                                        | None \<Rightarrow> False) \<rparr>\<rparr>
      in case error of
           Some e \<Rightarrow>
             (step1,
              emit [ObserverAfterStep (name step)]
                (pushSummary (name step) FAILED
                   (emit [ObserverStepError (name step) (liftToStructuredError e)]
                      (st4\<lparr>failed := True\<rparr>))))
         | None \<Rightarrow>
             (step1,
              doStepDelay
                (emit [ObserverAfterStep (name step)]
                   (pushSummary (name step) PASSED
                      (emit [ObserverStepPassed (name step)] st4)))))"

text \<open>
  The same call of runStep when the engine does not wait for its end. \<open>runStepStart\<close> is
  the part up to the call of the body: the observer is told, the settings are saved and
  replaced, the body is called. \<open>runStepFinish\<close> is the part that runs when the body has
  settled: the \<open>finally\<close> block puts the saved settings back, and the outcome is recorded,
  in the summary too. The two parts one after the other are runStep; the scratch record
  \<open>step.prop\<close> of a step whose call was abandoned is not followed.
\<close>

definition runStepStart :: "Step \<Rightarrow> TestState \<Rightarrow> Pending \<times> TestState" where
  "runStepStart step st =
     (let st1 = emit [ObserverBeforeStep (name step)] st;
          originalBrowserSettings = browserSettings st1;
          st2 = st1\<lparr>browserSettings := settings st1 ++ options step\<rparr>;
          (error, left) = fn step (browserSettings st2) (history st2)
      in (\<lparr> pendingStep = name step, savedSettings = originalBrowserSettings,
            pendingError = error \<rparr>,
          emit [StepFnCall (name step) (browserSettings st2)] st2))"

definition runStepFinish :: "Pending \<Rightarrow> TestState \<Rightarrow> TestState" where
  "runStepFinish p st =
     (let st4 = st\<lparr>browserSettings := savedSettings p\<rparr>
      in case pendingError p of
           Some e \<Rightarrow>
             emit [ObserverAfterStep (pendingStep p)]
               (pushSummary (pendingStep p) FAILED
                  (emit [ObserverStepError (pendingStep p) (liftToStructuredError e)]
                     (st4\<lparr>failed := True\<rparr>)))
         | None \<Rightarrow>
             doStepDelay
               (emit [ObserverAfterStep (pendingStep p)]
                  (pushSummary (pendingStep p) PASSED
                     (emit [ObserverStepPassed (pendingStep p)] st4))))"

text \<open>
  JavaScript runs the rest of an abandoned call only while the engine itself awaits
  something. At such a point each pending call whose body has settled runs to its end, in
  the order in which the calls were started; the others stay pending. A call is only ever
  abandoned to a requested token, so before the request nothing is pending.
\<close>

fun settlePending :: "Env \<Rightarrow> Pending list \<Rightarrow> TestState \<Rightarrow> Pending list \<times> TestState" where
  "settlePending env [] st = ([], st)"
| "settlePending env (p # ps) st =
     (if settles env (pendingStep p) (history st) then settlePending env ps (runStepFinish p st)
      else (let (still, st1) = settlePending env ps st in (p # still, st1)))"

definition awaitPoint :: "Env \<Rightarrow> TestState \<Rightarrow> TestState" where
  "awaitPoint env st =
     (if cancelRequested st then
        (let (still, st1) = settlePending env (pending st) st in st1\<lparr>pending := still\<rparr>)
      else st)"

text \<open>
  Modelled from the spec: StepIterator.callRecovery (runtime/StepIterator) is not among
  the sources. The spec has it look up the recovery sequence under the name of the failing
  step: with none registered recovery fails at once; otherwise it returns true only if the
  sequence completes without error within the tries.
\<close>

definition callRecovery :: "Env \<Rightarrow> Step \<Rightarrow> (string \<rightharpoonup> string list) \<Rightarrow> int \<Rightarrow> bool" where
  "callRecovery env step recovery tries =
     (case recovery (name step) of
        None \<Rightarrow> False
      | Some recoverySequence \<Rightarrow> recoveryCompletes env step tries)"

text \<open>The assignment expression \<open>(this.settings.tries = v)\<close>: its value and its effect.\<close>

definition assignTries :: "int \<Rightarrow> TestState \<Rightarrow> int \<times> TestState" where
  "assignTries v st = (v, st\<lparr>settings := (settings st)(''tries'' \<mapsto> VNum v)\<rparr>)"

text \<open>
  The callback that runWithCancellation hands to StepIterator.run, for one step. The
  call \<open>this.runStep(...)\<close> is an argument of \<open>Promise.race\<close>, so it is started whoever
  wins. When the cancellation signal wins, and a token that is already requested wins
  every race, the engine stops waiting: the call stays pending, with the settings of the
  browser replaced, and the callback returns. The awaited calls of the callback before the
  race are one point where pending calls can run on.
\<close>

definition executor :: "Env \<Rightarrow> int \<Rightarrow> Step \<Rightarrow> TestState \<Rightarrow> outcome \<times> Step \<times> TestState" where
  "executor env iterationNumber step st =
     (case runHookFn (beforeEach (hook st)) st of
        (Thrown e, st1) \<Rightarrow> (Thrown e, step, st1)
      | (Normal, st1) \<Rightarrow>
          (let st1 = awaitPoint env st1 in
           if \<not> callCondition env step iterationNumber then
             (Normal, step, summarizeStepBeforeRun step iterationNumber st1)
           else if truthy (options step ''predicate'') \<and> \<not> callPredicate env step then
             (Normal, step, st1)
           else
             (let st1 = st1\<lparr>customContext := Some (name step)\<rparr> in
              if cancelRequested st1 \<or> cancelRace env step = CancelWins then
                (let (p, st2) = runStepStart step st1
                 in (Normal, step, st2\<lparr>pending := pending st2 @ [p], cancelRequested := True\<rparr>))
              else
                (let (step2, st2) = runStep step st1 in
                 if cancelRace env step = CancelAfterSettle then
                   (Normal, step2, st2\<lparr>cancelRequested := True\<rparr>)
                 else
                   (let (outcome3, st3) =
                      (if failed st2 then
                         (let (tries, st2a) = assignTries 0 st2;
                              st2b = emit [CallRecovery (name step) tries] st2a
                          in if callRecovery env step (recoverySteps st2b) tries
                             then (Normal, st2b\<lparr>failed := False\<rparr>)
                             else (Thrown (newError []), st2b))
                       else (Normal, st2))
                    in case outcome3 of
                         Thrown e \<Rightarrow> (Thrown e, step2, st3)
                       | Normal \<Rightarrow>
                           (case runHookFn (afterEach (hook st3)) st3 of
                              (outcome4, st4) \<Rightarrow> (outcome4, step2, st4)))))))"

text \<open>
  Modelled from the spec: StepIterator.run (runtime/StepIterator) is not among the
  sources. The spec has it pass each step to the executor, one after the other in the
  declared order. The iterator keeps the steps it has reached and those it has not; a
  step whose executor raises has been reached.
\<close>

fun stepIterator_run ::
  "(Step \<Rightarrow> TestState \<Rightarrow> outcome \<times> Step \<times> TestState) \<Rightarrow> Step list \<Rightarrow> Step list \<Rightarrow> TestState
     \<Rightarrow> outcome \<times> (Step list \<times> Step list) \<times> TestState" where
  "stepIterator_run exec reached [] st = (Normal, (reached, []), st)"
| "stepIterator_run exec reached (step # unreached) st =
     (case exec step st of
        (Normal, step1, st1) \<Rightarrow> stepIterator_run exec (reached @ [step1]) unreached st1
      | (Thrown e, step1, st1) \<Rightarrow> (Thrown e, (reached @ [step1], unreached), st1))"

text \<open>The one-shot directives of the setup, each only if configured, in their order.\<close>

definition directives :: "settingsObj \<Rightarrow> event list" where
  "directives s =
     (if truthy (s ''clearCache'') then [BrowserDirective ''clearBrowserCache''] else []) @
     (if truthy (s ''clearCookies'') then [BrowserDirective ''clearBrowserCookies''] else []) @
     (if truthy (s ''device'') then [BrowserDirective ''emulateDevice''] else []) @
     (if truthy (s ''userAgent'') then [BrowserDirective ''setUserAgent''] else []) @
     (if truthy (s ''disableCache'') then [BrowserDirective ''setCacheDisabled''] else []) @
     (if truthy (s ''extraHTTPHeaders'') then [BrowserDirective ''setExtraHTTPHeaders''] else [])"

text \<open>The \<open>try\<close> block of runWithCancellation.\<close>

definition tryBlock ::
  "Env \<Rightarrow> int \<Rightarrow> TestState \<Rightarrow> outcome \<times> (Step list \<times> Step list) \<times> TestState" where
  "tryBlock env iterationNumber st =
     (let st1 = emit (directives (settings st) @ [ObserverBefore, TestDataFeed]) st
      in if \<not> feed env then
           (Thrown (newError ''Test data exhausted, consider making it circular?''),
            ([], steps st1), st1)
         else
           (case runHookFn (beforeAll (hook st1)) st1 of
              (Thrown e, st2) \<Rightarrow> (Thrown e, ([], steps st2), st2)
            | (Normal, st2) \<Rightarrow> stepIterator_run (executor env iterationNumber) [] (steps st2) st2))"

text \<open>Test.summarizeStepAfterStopRunning, on the steps that the iterator has not reached.\<close>

definition summarizeStepAfterStopRunning :: "Step list \<Rightarrow> TestState \<Rightarrow> Step list \<times> TestState" where
  "summarizeStepAfterStopRunning unreached st =
     (let (unreached1, summ1) =
            loopUnexecutedSteps summarizedUnexecutedStep unreached (summaryStep st)
      in (unreached1, (emit [LoopUnexecutedSteps] st)\<lparr>summaryStep := summ1\<rparr>))"

text \<open>
  Test.afterRunSteps: the detach of the interceptor is awaited first. When it rejects,
  the rejection leaves afterRunSteps at once, and the summarization does not run.
\<close>

definition afterRunSteps :: "Env \<Rightarrow> Step list \<Rightarrow> TestState \<Rightarrow> outcome \<times> Step list \<times> TestState" where
  "afterRunSteps env unreached st =
     (let st1 = emit [InterceptorDetach] st
      in case detach env of
           Some e \<Rightarrow> (Thrown e, unreached, st1)
         | None \<Rightarrow>
             (let st2 = awaitPoint env (st1\<lparr>interceptorAttached := False\<rparr>);
                  (unreached1, st3) = summarizeStepAfterStopRunning unreached st2
              in (Normal, unreached1, st3)))"

text \<open>
  The \<open>catch\<close> and \<open>finally\<close> blocks of runWithCancellation, from the outcome of the
  \<open>try\<close> block. A failure of the \<open>try\<close> block sets the failed flag and is raised again
  after the cleanup. The three awaited calls of the \<open>finally\<close> block stand one after the
  other with no \<open>try\<close> of their own: a rejection of afterRunSteps or of the observer's
  \<open>after\<close> leaves the block at once, skips the calls after it and replaces the failure of
  the \<open>try\<close> block, as a failure of the afterAll hooks does.
\<close>

definition finishIteration ::
  "Env \<Rightarrow> outcome \<times> (Step list \<times> Step list) \<times> TestState \<Rightarrow> outcome \<times> TestState" where
  "finishIteration env tried =
     (case tried of
        (outcome1, (reached, unreached), st1) \<Rightarrow>
          (let st2 = (case outcome1 of Normal \<Rightarrow> st1 | Thrown e \<Rightarrow> st1\<lparr>failed := True\<rparr>)
           in case afterRunSteps env unreached st2 of
                (Thrown e, unreached1, st3) \<Rightarrow> (Thrown e, st3\<lparr>steps := reached @ unreached1\<rparr>)
              | (Normal, unreached1, st3) \<Rightarrow>
                  (let st4 = emit [ObserverAfter] (st3\<lparr>steps := reached @ unreached1\<rparr>)
                   in case observerAfter env of
                        Some e \<Rightarrow> (Thrown e, st4)
                      | None \<Rightarrow>
                          (let (outcome5, st5) =
                                 runHookFn (afterAll (hook st4)) (awaitPoint env st4);
                               st6 = awaitPoint env st5
                           in case outcome5 of
                                Thrown e \<Rightarrow> (Thrown e, st6)
                              | Normal \<Rightarrow> (outcome1, st6)))))"

text \<open>
  Test.runWithCancellation. Before the \<open>try\<close> block the page is reopened and the
  interceptor attached: a rejection of either call leaves the function with no cleanup at
  all. Then the flags are reset and a browser is made with the global settings; then the
  \<open>try\<close> block and the cleanup.
\<close>

definition enterIteration :: "TestState \<Rightarrow> TestState" where
  "enterIteration st =
     (let st1 = (emit [ReopenPage, InterceptorAttach] st)\<lparr>interceptorAttached := True\<rparr>
      in st1\<lparr>failed := False, browserSettings := settings st1\<rparr>)"

definition runWithCancellation :: "Env \<Rightarrow> int \<Rightarrow> TestState \<Rightarrow> outcome \<times> TestState" where
  "runWithCancellation env iterationNumber st =
     (case reopenPage env of
        Some e \<Rightarrow> (Thrown e, emit [ReopenPage] st)
      | None \<Rightarrow>
          (case attach env of
             Some e \<Rightarrow> (Thrown e, emit [ReopenPage, InterceptorAttach] st)
           | None \<Rightarrow> finishIteration env (tryBlock env iterationNumber (enterIteration st))))"

section \<open>Notions used by the statements\<close>

text \<open>
  The number of UNEXECUTED rows that the specification promises for an unreached step:
  \<open>count - iteration\<close> for a repeat descriptor with \<open>iteration > 0\<close>, one row otherwise.
\<close>

definition claimedRows :: "Step \<Rightarrow> nat" where
  "claimedRows step =
     (case repeatOf (options step) of
        Some r \<Rightarrow> if iteration r > 0 then nat (count r - iteration r) else 1
      | None \<Rightarrow> 1)"

text \<open>
  The number of UNEXECUTED rows that the summarization appends for an unreached step: for
  a repeat descriptor with \<open>iteration > 0\<close> the rows of the \<open>do ... while\<close>, at least one;
  for a repeat descriptor with \<open>iteration = 0\<close> none; without a repeat descriptor one.
\<close>

definition emittedRows :: "Step \<Rightarrow> nat" where
  "emittedRows step =
     (case repeatOf (options step) of
        Some r \<Rightarrow> if iteration r > 0 then nat (max 1 (count r - iteration r)) else 0
      | None \<Rightarrow> 1)"

text \<open>The step with the iteration of its repeat descriptor, if it has one, set to 0.\<close>

definition resetRepeat :: "Step \<Rightarrow> Step" where
  "resetRepeat step =
     (case repeatOf (options step) of
        Some r \<Rightarrow> step\<lparr>options := (options step)(''repeat'' \<mapsto> VRepeat (r\<lparr>iteration := 0\<rparr>))\<rparr>
      | None \<Rightarrow> step)"

text \<open>Every hook of a sequence settles in time without raising, whenever it is called.\<close>

definition hooksPass :: "HookBase list \<Rightarrow> bool" where
  "hooksPass hooks = (\<forall>h \<in> set hooks. \<forall>bs evs. hook_fn h bs evs = HookOk)"

text \<open>The body of a step raises, whenever it is called.\<close>

definition bodyThrows :: "Step \<Rightarrow> bool" where
  "bodyThrows step = (\<forall>bs evs. fst (fn step bs evs) \<noteq> None)"

text \<open>The gates of a step let it run: its condition holds, and its predicate if it has one.\<close>

definition gateOpen :: "Env \<Rightarrow> Step \<Rightarrow> int \<Rightarrow> bool" where
  "gateOpen env step iterationNumber =
     (callCondition env step iterationNumber
      \<and> (\<not> truthy (options step ''predicate'') \<or> callPredicate env step))"

text \<open>The tries arguments of the calls of callRecovery in a history, in their order.\<close>

fun recoveryTries :: "event list \<Rightarrow> int list" where
  "recoveryTries [] = []"
| "recoveryTries (CallRecovery nm tries # evs) = tries # recoveryTries evs"
| "recoveryTries (ev # evs) = recoveryTries evs"

text \<open>The calls of the hooks of a sequence, as the history shows them.\<close>

definition hookCalls :: "HookBase list \<Rightarrow> event list" where
  "hookCalls hooks = map (\<lambda>h. HookCall (waitTimeout h)) hooks"

text \<open>
  The hooks of a sequence that get called, from the global settings and the history at
  the start of the sequence: the first hook always, and each next one exactly when the
  one before it has settled in time without raising.
\<close>

fun hooksCalled :: "HookBase list \<Rightarrow> settingsObj \<Rightarrow> event list \<Rightarrow> HookBase list" where
  "hooksCalled [] s evs = []"
| "hooksCalled (h # hooks) s evs =
     h # (case hook_fn h (s(''waitTimeout'' \<mapsto> VNum (waitTimeout h))) evs of
            HookOk \<Rightarrow> hooksCalled hooks s (evs @ [HookCall (waitTimeout h)])
          | HookThrows e \<Rightarrow> []
          | HookTimeout \<Rightarrow> [])"

text \<open>
  The calls that belong to the cleanup of an iteration. The calls that a pending runStep
  makes when it runs on (to the observer of a step, the step delay) are not among them.
\<close>

fun cleanupCall :: "event \<Rightarrow> bool" where
  "cleanupCall InterceptorDetach = True"
| "cleanupCall LoopUnexecutedSteps = True"
| "cleanupCall ObserverAfter = True"
| "cleanupCall (HookCall w) = True"
| "cleanupCall ev = False"

text \<open>The row that an abandoned call of runStep records once its body has settled.\<close>

definition settledRow :: "Pending \<Rightarrow> SummaryStep" where
  "settledRow p =
     \<lparr>stepName = pendingStep p, result = (if pendingError p = None then PASSED else FAILED)\<rparr>"

text \<open>The names of the steps whose bodies were called in a history, in their order.\<close>

fun bodyCalls :: "event list \<Rightarrow> string list" where
  "bodyCalls [] = []"
| "bodyCalls (StepFnCall nm bs # evs) = nm # bodyCalls evs"
| "bodyCalls (ev # evs) = bodyCalls evs"

text \<open>
  A stretch of history in which only pending calls of runStep have run on: it holds no
  call of the cleanup and no call of callRecovery.
\<close>

definition background :: "event list \<Rightarrow> bool" where
  "background evs = (filter cleanupCall evs = [] \<and> recoveryTries evs = [])"

text \<open>
  What an iteration may do to the hooks, the history and the settings between two of its
  states: the hooks stay, the history grows, every call of callRecovery in the new part
  carries the tries 0, and the settings are the same, but for \<open>tries\<close> set to 0 once
  callRecovery has been called.
\<close>

definition advances :: "TestState \<Rightarrow> TestState \<Rightarrow> bool" where
  "advances st st' =
     (hook st' = hook st
      \<and> (\<exists>evs. history st' = history st @ evs
            \<and> set (recoveryTries evs) \<subseteq> {0}
            \<and> settings st' = (if recoveryTries evs = [] then settings st
                              else (settings st)(''tries'' \<mapsto> VNum 0))))"

section \<open>Sample inputs\<close>

text \<open>
  A body that returns, a body that raises and leaves no settings on the browser, a step,
  the answers of the collaborators when no awaited call rejects, every gate is open, every
  recovery succeeds, nobody cancels and nothing pending settles, and a test with three
  tries configured and no hooks but afterAll.
\<close>

definition passing :: "settingsObj \<Rightarrow> event list \<Rightarrow> JsError option \<times> settingsObj" where
  "passing bs evs = (None, bs)"

definition throwing :: "settingsObj \<Rightarrow> event list \<Rightarrow> JsError option \<times> settingsObj" where
  "throwing bs evs = (Some (newError ''boom''), Map.empty)"

definition sampleStep ::
  "string \<Rightarrow> (settingsObj \<Rightarrow> event list \<Rightarrow> JsError option \<times> settingsObj) \<Rightarrow> settingsObj \<Rightarrow> Step" where
  "sampleStep nm body opts = \<lparr> name = nm, fn = body, options = opts, stepProp = None \<rparr>"

definition sampleEnv :: "bool \<Rightarrow> Env" where
  "sampleEnv hasData =
     \<lparr> reopenPage = None, attach = None,
       feed = hasData, callCondition = (\<lambda>step n. True), callPredicate = (\<lambda>step. True),
       recoveryCompletes = (\<lambda>step tries. True), cancelRace = (\<lambda>step. BodySettles),
       settles = (\<lambda>nm evs. False), detach = None, observerAfter = None \<rparr>"

text \<open>
  The same answers, but the cancellation signal wins the race of the step B, and a body
  that lost its race has settled by the next time the engine awaits something.
\<close>

definition cancellingEnv :: Env where
  "cancellingEnv =
     (sampleEnv True)\<lparr> cancelRace := (\<lambda>step. if name step = ''B'' then CancelWins else BodySettles),
                        settles := (\<lambda>nm evs. True) \<rparr>"

definition sampleTest :: "Step list \<Rightarrow> (string \<rightharpoonup> string list) \<Rightarrow> HookBase list \<Rightarrow> TestState" where
  "sampleTest ss recovery afterAllHooks =
     \<lparr> settings = [''tries'' \<mapsto> VNum 3],
       steps = ss,
       hook = \<lparr> beforeAll = [], afterAll = afterAllHooks, beforeEach = [], afterEach = [] \<rparr>,
       recoverySteps = recovery,
       failed = False,
       summaryStep = [],
       browserSettings = [''tries'' \<mapsto> VNum 3],
       customContext = None,
       interceptorAttached = False,
       cancelRequested = False,
       pending = [],
       history = [] \<rparr>"

section \<open>The definitions of the engine and of the sample inputs, to unfold\<close>

lemmas sample_defs = passing_def throwing_def sampleStep_def sampleEnv_def sampleTest_def
  cancellingEnv_def

lemmas engine_defs = runWithCancellation_def finishIteration_def tryBlock_def enterIteration_def
  executor_def runStep_def runStepStart_def runStepFinish_def awaitPoint_def
  emit_def pushSummary_def doStepDelay_def callRecovery_def assignTries_def
  afterRunSteps_def summarizeStepAfterStopRunning_def summarizedUnexecutedStep_def countRepeatStep_def
  repeatOf_def unexecutedRow_def directives_def summarizeStepBeforeRun_def newError_def

section \<open>The error classifier\<close>

text \<open>
  C7. The classifier tags a failure whose name begins with "AssertionError" as
  \<open>assertion\<close>, keeping its message and wrapping the failure; otherwise it returns a failure
  that carries the structured marker as it is; otherwise it wraps the bare failure with the
  kind tag \<open>empty\<close> and the originating phase "test".
\<close>

theorem liftToStructuredError_classifies:
  "(startsWith (err_name error) ''AssertionError'' \<longrightarrow>
      data_kind (liftToStructuredError error) = Some ''assertion''
      \<and> err_message (liftToStructuredError error) = err_message error
      \<and> originalError (liftToStructuredError error) = Some error
      \<and> err_structured (liftToStructuredError error) = Some ''yes'')
   \<and> (\<not> startsWith (err_name error) ''AssertionError'' \<and> err_structured error = Some ''yes'' \<longrightarrow>
      liftToStructuredError error = error)
   \<and> (\<not> startsWith (err_name error) ''AssertionError'' \<and> err_structured error \<noteq> Some ''yes'' \<longrightarrow>
      liftToStructuredError error = wrapBareError error ''empty'' ''test''
      \<and> data_kind (liftToStructuredError error) = Some ''empty''
      \<and> err_source (liftToStructuredError error) = Some ''test''
      \<and> originalError (liftToStructuredError error) = Some error)"
  by (simp add: liftToStructuredError_def newStructuredError_def copyStackFromOriginalError_def
      wrapBareError_def)

theorem liftToStructuredError_classifies_witness:
  "startsWith ''AssertionError [ERR_ASSERTION]'' ''AssertionError''
   \<and> data_kind (liftToStructuredError
        (JsError ''AssertionError [ERR_ASSERTION]'' ''1 == 2'' ''at step'' None None None None))
      = Some ''assertion''
   \<and> liftToStructuredError
        (JsError ''Error'' ''no element'' [] (Some ''yes'') (Some ''action'') None None)
      = JsError ''Error'' ''no element'' [] (Some ''yes'') (Some ''action'') None None
   \<and> err_source (liftToStructuredError (JsError ''TypeError'' ''x is undefined'' [] None None None None))
      = Some ''test''
   \<and> data_kind (liftToStructuredError (JsError ''TypeError'' ''x is undefined'' [] None None None None))
      = Some ''empty''"
  using liftToStructuredError_classifies
          [of "JsError ''AssertionError [ERR_ASSERTION]'' ''1 == 2'' ''at step'' None None None None"]
        liftToStructuredError_classifies
          [of "JsError ''Error'' ''no element'' [] (Some ''yes'') (Some ''action'') None None"]
        liftToStructuredError_classifies
          [of "JsError ''TypeError'' ''x is undefined'' [] None None None None"]
  by (simp add: startsWith_def wrapBareError_def)

section \<open>The Looper\<close>

lemma continueLoop_iff:
  "continueLoop l \<longleftrightarrow> \<not> cancelled l \<and> (looperCount l \<le> 0 \<or> iterations l < looperCount l)"
  by (auto simp: continueLoop_def Let_def)

lemma unbounded_run_aux:
  assumes run: "looper_run iterator timer l s = Some y"
  shows "neverStops iterator \<and> \<not> cancelled l \<and> \<not> timeoutArmed l \<and> looperCount l \<le> 0
     \<longrightarrow> (\<exists>e. fst y = Inl e) \<and> \<not> neverRejects iterator"
proof (rule looper_run.raw_induct[where
      P = "\<lambda>iterator timer l s y. neverStops iterator \<and> \<not> cancelled l \<and> \<not> timeoutArmed l
         \<and> looperCount l \<le> 0 \<longrightarrow> (\<exists>e. fst y = Inl e) \<and> \<not> neverRejects iterator", OF _ run])
  fix run :: "(int \<Rightarrow> 'a \<Rightarrow> 'a iterOutcome) \<Rightarrow> (int \<Rightarrow> bool) \<Rightarrow> Looper \<Rightarrow> 'a
     \<Rightarrow> ((JsError + int) \<times> Looper \<times> 'a) option"
  fix iterator timer l s y
  assume IH: "\<And>iterator timer l s y. run iterator timer l s = Some y \<Longrightarrow>
      neverStops iterator \<and> \<not> cancelled l \<and> \<not> timeoutArmed l \<and> looperCount l \<le> 0
      \<longrightarrow> (\<exists>e. fst y = Inl e) \<and> \<not> neverRejects iterator"
  assume body: "(if continueLoop l then
        (let l1 = l\<lparr>iterations := iterations l + 1\<rparr> in
         case iterator (iterations l1) s of
           Resolved s' stopCalled \<Rightarrow>
             run iterator timer
               (l1\<lparr>cancelled := cancelled l1 \<or> stopCalled
                                  \<or> (timeoutArmed l1 \<and> timer (iterations l1))\<rparr>) s'
         | Rejected e s' \<Rightarrow> Some (Inl e, l1, s'))
      else Some (Inr (iterations l), finish l, s)) = Some y"
  show "neverStops iterator \<and> \<not> cancelled l \<and> \<not> timeoutArmed l \<and> looperCount l \<le> 0
      \<longrightarrow> (\<exists>e. fst y = Inl e) \<and> \<not> neverRejects iterator"
  proof (intro impI, elim conjE)
    assume ns: "neverStops iterator" and nc: "\<not> cancelled l" and nt: "\<not> timeoutArmed l"
      and le: "looperCount l \<le> 0"
    have cont: "continueLoop l" using nc le by (simp add: continueLoop_iff)
    let ?l1 = "l\<lparr>iterations := iterations l + 1\<rparr>"
    show "(\<exists>e. fst y = Inl e) \<and> \<not> neverRejects iterator"
    proof (cases "iterator (iterations l + 1) s")
      case (Resolved s' stopCalled)
      have sc: "\<not> stopCalled" using ns Resolved by (cases stopCalled) (auto simp: neverStops_def)
      have "run iterator timer (?l1\<lparr>cancelled := False\<rparr>) s' = Some y"
        using body cont Resolved sc nc nt by (simp add: Let_def)
      from IH[OF this] ns nc nt le show ?thesis by simp
    next
      case (Rejected e s')
      have "y = (Inl e, ?l1, s')" using body cont Rejected by (simp add: Let_def)
      moreover have "\<not> neverRejects iterator" using Rejected by (auto simp: neverRejects_def)
      ultimately show ?thesis by simp
    qed
  qed
qed

lemma bounded_run_aux:
  "completes iterator \<Longrightarrow> \<not> cancelled l \<Longrightarrow> \<not> timeoutArmed l \<Longrightarrow> iterations l \<le> N
   \<Longrightarrow> looperCount l = N \<Longrightarrow> 0 < N \<Longrightarrow> m = nat (N - iterations l)
   \<Longrightarrow> looper_run iterator timer l s =
        Some (Inr N, l\<lparr>iterations := N\<rparr>, fold (iterState iterator) [iterations l + 1..N] s)"
proof (induction m arbitrary: l s)
  case 0
  then have eq: "iterations l = N" by simp
  then have "\<not> continueLoop l" using 0 by (simp add: continueLoop_iff)
  then show ?case using eq 0 by (subst looper_run.simps) (simp add: finish_def)
next
  case (Suc m)
  then have lt: "iterations l < N" by simp
  then have cont: "continueLoop l" using Suc by (simp add: continueLoop_iff)
  let ?l1 = "l\<lparr>iterations := iterations l + 1\<rparr>"
  let ?s1 = "iterState iterator (iterations l + 1) s"
  have it: "iterator (iterations l + 1) s = Resolved ?s1 False"
    using Suc.prems(1) by (simp add: completes_def)
  have same: "?l1\<lparr>cancelled := False\<rparr> = ?l1" using Suc.prems(2) by simp
  have step: "looper_run iterator timer l s = looper_run iterator timer ?l1 ?s1"
    using cont it Suc.prems(2,3) by (subst looper_run.simps) (simp add: Let_def same)
  have "looper_run iterator timer ?l1 ?s1 =
        Some (Inr N, ?l1\<lparr>iterations := N\<rparr>, fold (iterState iterator) [iterations ?l1 + 1..N] ?s1)"
    using Suc.prems lt by (intro Suc.IH) auto
  moreover have "[iterations l + 1..N] = (iterations l + 1) # [iterations l + 1 + 1..N]"
    using lt by (simp add: upto_rec1)
  ultimately show ?case using step by simp
qed

lemma completes_recording: "completes iterator \<Longrightarrow> completes (recording iterator)"
  unfolding completes_def
proof (intro allI)
  fix k and ls :: "int list \<times> 'a"
  assume c: "\<forall>k s. iterator k s = Resolved (iterState iterator k s) False"
  then obtain s' where "iterator k (snd ls) = Resolved s' False" by blast
  then show "recording iterator k ls = Resolved (iterState (recording iterator) k ls) False"
    by (simp add: recording_def iterState_def)
qed

lemma fold_recording:
  "completes iterator \<Longrightarrow>
   fold (iterState (recording iterator)) ks (calls, s) = (calls @ ks, fold (iterState iterator) ks s)"
proof (induction ks arbitrary: calls s)
  case Nil
  then show ?case by simp
next
  case (Cons k ks)
  obtain s' where "iterator k s = Resolved s' False"
    using Cons.prems by (auto simp: completes_def)
  then have "iterState (recording iterator) k (calls, s) = (calls @ [k], iterState iterator k s)"
    by (simp add: recording_def iterState_def)
  then show ?case using Cons.IH[OF Cons.prems] by simp
qed

text \<open>
  C8. \<open>continueLoop\<close> holds exactly when the Looper is not cancelled and either the loop
  count is not positive or fewer iterations than the loop count have run. With a loop
  count that is not positive, no duration timer and no call of \<open>stop()\<close>, \<open>run\<close> never
  returns a number of iterations: if the iterator never rejects, \<open>run\<close> does not end at all.
\<close>

theorem continueLoop_unbounded:
  "(continueLoop l \<longleftrightarrow> \<not> cancelled l \<and> (looperCount l \<le> 0 \<or> iterations l < looperCount l))
   \<and> (looperCount l \<le> 0 \<and> \<not> cancelled l \<and> \<not> timeoutArmed l \<and> neverStops iterator \<longrightarrow>
        (\<forall>n l' s'. looper_run iterator timer l s \<noteq> Some (Inr n, l', s'))
        \<and> (neverRejects iterator \<longrightarrow> looper_run iterator timer l s = None))"
proof (intro conjI impI allI)
  show "continueLoop l \<longleftrightarrow> \<not> cancelled l \<and> (looperCount l \<le> 0 \<or> iterations l < looperCount l)"
    by (rule continueLoop_iff)
next
  fix n l' s'
  assume h: "looperCount l \<le> 0 \<and> \<not> cancelled l \<and> \<not> timeoutArmed l \<and> neverStops iterator"
  show "looper_run iterator timer l s \<noteq> Some (Inr n, l', s')"
  proof
    assume "looper_run iterator timer l s = Some (Inr n, l', s')"
    from unbounded_run_aux[OF this] h show False by simp
  qed
next
  assume h: "looperCount l \<le> 0 \<and> \<not> cancelled l \<and> \<not> timeoutArmed l \<and> neverStops iterator"
    and nr: "neverRejects iterator"
  show "looper_run iterator timer l s = None"
  proof (cases "looper_run iterator timer l s")
    case None
    then show ?thesis .
  next
    case (Some y)
    from unbounded_run_aux[OF this] h nr show ?thesis by simp
  qed
qed

theorem continueLoop_unbounded_witness:
  "continueLoop (newLooper \<lparr>duration = 0, loopCount = 0\<rparr> True)
   \<and> \<not> continueLoop (stop (newLooper \<lparr>duration = 0, loopCount = 0\<rparr> True))
   \<and> looper_run (\<lambda>k s. Resolved (s + k) False) (\<lambda>k. False)
        (newLooper \<lparr>duration = 0, loopCount = 0\<rparr> True) (0::int) = None"
  using continueLoop_unbounded
          [of "newLooper \<lparr>duration = 0, loopCount = 0\<rparr> True" "\<lambda>k s. Resolved (s + k) False"
              "\<lambda>k. False" "0::int"]
        continueLoop_unbounded
          [of "stop (newLooper \<lparr>duration = 0, loopCount = 0\<rparr> True)" "\<lambda>k s. Resolved (s + k) False"
              "\<lambda>k. False" "0::int"]
  by (simp add: newLooper_def stop_def neverStops_def neverRejects_def)

text \<open>
  C9. A Looper made with a loop count \<open>N > 0\<close>, no duration and \<open>running = true\<close>, on
  which nobody calls \<open>stop()\<close>, calls an iterator whose calls all settle normally exactly
  \<open>N\<close> times, with the iteration numbers 1 to \<open>N\<close> in this order, each call starting from
  the state the previous one left, and returns \<open>N\<close>.
\<close>

theorem looper_run_counts:
  assumes "0 < N" and "duration loopSettings \<le> 0" and "loopCount loopSettings = N"
    and "completes iterator"
  shows "looper_run (recording iterator) timer (newLooper loopSettings True) ([], s) =
           Some (Inr N, (newLooper loopSettings True)\<lparr>iterations := N\<rparr>,
                 ([1..N], fold (iterState iterator) [1..N] s))"
proof -
  let ?l = "newLooper loopSettings True"
  have "looper_run (recording iterator) timer ?l ([], s) =
          Some (Inr N, ?l\<lparr>iterations := N\<rparr>,
                fold (iterState (recording iterator)) [iterations ?l + 1..N] ([], s))"
    using assms by (intro bounded_run_aux[OF completes_recording]) (auto simp: newLooper_def)
  moreover have "iterations ?l + 1 = 1" by (simp add: newLooper_def)
  ultimately show ?thesis using fold_recording[OF assms(4), of "[1..N]" "[]" s] by simp
qed

theorem looper_run_counts_witness:
  "(0::int) < 3
   \<and> looper_run (recording (\<lambda>k s. Resolved (s + k) False)) (\<lambda>k. False)
        (newLooper \<lparr>duration = 0, loopCount = 3\<rparr> True) ([], 0::int) =
      Some (Inr 3, (newLooper \<lparr>duration = 0, loopCount = 3\<rparr> True)\<lparr>iterations := 3\<rparr>,
            ([1, 2, 3], 6))"
  using looper_run_counts
          [of 3 "\<lparr>duration = 0, loopCount = 3\<rparr>" "\<lambda>k s. Resolved (s + k) False" "\<lambda>k. False" "0::int"]
  by (simp add: completes_def iterState_def upto_rec1)

section \<open>The summary of the unexecuted steps\<close>

lemma countRepeatLoop_rows:
  "countRepeatLoop step r summ =
     (r\<lparr>iteration := max (iteration r + 1) (count r)\<rparr>,
      summ @ replicate (nat (max 1 (count r - iteration r))) (unexecutedRow step))"
proof (induction step r summ rule: countRepeatLoop.induct)
  case (1 step r summ)
  show ?case
  proof (cases "iteration r + 1 < count r")
    case True
    then have n: "nat (max 1 (count r - iteration r)) = Suc (nat (max 1 (count r - (iteration r + 1))))"
      by simp
    have "countRepeatLoop step r summ =
            countRepeatLoop step (r\<lparr>iteration := iteration r + 1\<rparr>) (summ @ [unexecutedRow step])"
      using True by (subst countRepeatLoop.simps) (simp add: Let_def)
    also have "\<dots> = (r\<lparr>iteration := max (iteration r + 1 + 1) (count r)\<rparr>,
        (summ @ [unexecutedRow step]) @
          replicate (nat (max 1 (count r - (iteration r + 1)))) (unexecutedRow step))"
      using "1.IH"[OF refl refl] True by simp
    finally show ?thesis using True n by (simp add: max_def replicate_app_Cons_same)
  next
    case False
    then have "nat (max 1 (count r - iteration r)) = 1" by simp
    then show ?thesis using False by (subst countRepeatLoop.simps) (simp add: Let_def)
  qed
qed

lemma summarizedUnexecutedStep_plain:
  "repeatOf (options step) = None \<Longrightarrow>
   summarizedUnexecutedStep step summ = (step, summ @ [unexecutedRow step])"
  by (simp add: summarizedUnexecutedStep_def countRepeatStep_def)

lemma summarizedUnexecutedStep_repeat:
  "repeatOf (options step) = Some r \<Longrightarrow>
   summarizedUnexecutedStep step summ =
     (resetRepeat step,
      summ @ (if iteration r > 0
              then replicate (nat (max 1 (count r - iteration r))) (unexecutedRow step)
              else []))"
  by (simp add: summarizedUnexecutedStep_def countRepeatStep_def countRepeatLoop_rows resetRepeat_def
      del: countRepeatLoop.simps)

lemma summarizedUnexecutedStep_rows:
  "summarizedUnexecutedStep step summ =
     (resetRepeat step, summ @ replicate (emittedRows step) (unexecutedRow step))"
proof (cases "repeatOf (options step)")
  case None
  then show ?thesis
    by (simp add: summarizedUnexecutedStep_plain resetRepeat_def emittedRows_def)
next
  case (Some r)
  then show ?thesis
    by (simp add: summarizedUnexecutedStep_repeat emittedRows_def)
qed

text \<open>
  What the summarization does for any list of unreached steps: each step gets the rows
  of \<open>emittedRows\<close>, in the declared order, and the iteration of every repeat descriptor
  is set to 0.
\<close>

lemma loopUnexecutedSteps_rows:
  "loopUnexecutedSteps summarizedUnexecutedStep unreached summ =
     (map resetRepeat unreached,
      summ @ concat (map (\<lambda>step. replicate (emittedRows step) (unexecutedRow step)) unreached))"
  by (induction unreached arbitrary: summ) (simp_all add: summarizedUnexecutedStep_rows)

lemma emittedRows_claimed:
  "repeatOf (options step) = None \<Longrightarrow> emittedRows step = claimedRows step"
  "repeatOf (options step) = Some r \<Longrightarrow> 0 < iteration r \<Longrightarrow> iteration r < count r
     \<Longrightarrow> emittedRows step = claimedRows step"
  by (simp_all add: emittedRows_def claimedRows_def)

text \<open>
  C1. The code at the input on which it misses the claim: an unreached step that carries
  a repeat descriptor with \<open>iteration = 0\<close> is promised exactly one UNEXECUTED row;
  countRepeatStep answers true for it without a row, so summarizedUnexecutedStep returns
  before its own push, and the summary gets no row for the step.
\<close>

theorem unexecuted_repeat_step_gets_no_row:
  "claimedRows (sampleStep ''C'' passing [''repeat'' \<mapsto> VRepeat \<lparr>count = 2, iteration = 0\<rparr>]) = 1
   \<and> snd (summarizedUnexecutedStep
            (sampleStep ''C'' passing [''repeat'' \<mapsto> VRepeat \<lparr>count = 2, iteration = 0\<rparr>]) []) = []
   \<and> snd (summarizedUnexecutedStep (sampleStep ''C'' passing Map.empty) [])
      = [\<lparr>stepName = ''C'', result = UNEXECUTED\<rparr>]
   \<and> snd (summarizedUnexecutedStep
            (sampleStep ''C'' passing [''repeat'' \<mapsto> VRepeat \<lparr>count = 3, iteration = 1\<rparr>]) [])
      = [\<lparr>stepName = ''C'', result = UNEXECUTED\<rparr>, \<lparr>stepName = ''C'', result = UNEXECUTED\<rparr>]"
  by (simp add: claimedRows_def repeatOf_def summarizedUnexecutedStep_def countRepeatStep_def
      unexecutedRow_def sampleStep_def)

section \<open>Hooks\<close>

lemma runHookFn_frame:
  "runHookFn hooks st = (out, st') \<Longrightarrow>
   summaryStep st' = summaryStep st \<and> failed st' = failed st \<and> settings st' = settings st
   \<and> steps st' = steps st \<and> hook st' = hook st \<and> recoverySteps st' = recoverySteps st
   \<and> cancelRequested st' = cancelRequested st \<and> interceptorAttached st' = interceptorAttached st
   \<and> pending st' = pending st"
proof (induction hooks arbitrary: st)
  case Nil
  then show ?case by simp
next
  case (Cons h hooks)
  let ?st1 = "st\<lparr>browserSettings := (settings st)(''waitTimeout'' \<mapsto> VNum (waitTimeout h))\<rparr>"
  let ?st2 = "emit [HookCall (waitTimeout h)] ?st1"
  show ?case
  proof (cases "hook_fn h (browserSettings ?st1) (history ?st1)")
    case HookOk
    then have "runHookFn hooks ?st2 = (out, st')" using Cons.prems by (simp add: Let_def)
    from Cons.IH[OF this] show ?thesis by (simp add: emit_def)
  next
    case (HookThrows e)
    then have "st' = ?st2" using Cons.prems by (simp add: Let_def)
    then show ?thesis by (simp add: emit_def)
  next
    case HookTimeout
    then have "st' = ?st2" using Cons.prems by (simp add: Let_def)
    then show ?thesis by (simp add: emit_def)
  qed
qed

text \<open>The hooks that runHookFn calls are those of \<open>hooksCalled\<close>, in their order.\<close>

lemma runHookFn_calls:
  "runHookFn hooks st = (out, st') \<Longrightarrow>
   history st' = history st @ hookCalls (hooksCalled hooks (settings st) (history st))"
proof (induction hooks arbitrary: st)
  case Nil
  then show ?case by (simp add: hookCalls_def)
next
  case (Cons h hooks)
  let ?st1 = "st\<lparr>browserSettings := (settings st)(''waitTimeout'' \<mapsto> VNum (waitTimeout h))\<rparr>"
  let ?st2 = "emit [HookCall (waitTimeout h)] ?st1"
  show ?case
  proof (cases "hook_fn h ((settings st)(''waitTimeout'' \<mapsto> VNum (waitTimeout h))) (history st)")
    case HookOk
    then have "runHookFn hooks ?st2 = (out, st')" using Cons.prems by (simp add: Let_def)
    from Cons.IH[OF this] show ?thesis using HookOk by (simp add: emit_def hookCalls_def)
  next
    case (HookThrows e)
    then have "st' = ?st2" using Cons.prems by (simp add: Let_def)
    then show ?thesis using HookThrows by (simp add: emit_def hookCalls_def)
  next
    case HookTimeout
    then have "st' = ?st2" using Cons.prems by (simp add: Let_def)
    then show ?thesis using HookTimeout by (simp add: emit_def hookCalls_def)
  qed
qed


lemma hooksCalled_prefix: "\<exists>k. hooksCalled hooks s evs = take k hooks \<and> (k = 0) = (hooks = [])"
proof (induction hooks arbitrary: evs)
  case Nil
  then show ?case by simp
next
  case (Cons h hooks)
  show ?case
  proof (cases "hook_fn h (s(''waitTimeout'' \<mapsto> VNum (waitTimeout h))) evs")
    case HookOk
    from Cons.IH[of "evs @ [HookCall (waitTimeout h)]"] obtain k where
      "hooksCalled hooks s (evs @ [HookCall (waitTimeout h)]) = take k hooks" by blast
    then show ?thesis using HookOk by (intro exI[of _ "Suc k"]) simp
  next
    case (HookThrows e)
    then show ?thesis by (intro exI[of _ "Suc 0"]) simp
  next
    case HookTimeout
    then show ?thesis by (intro exI[of _ "Suc 0"]) simp
  qed
qed

lemma runHookFn_history:
  "runHookFn hooks st = (out, st') \<Longrightarrow>
   \<exists>k. history st' = history st @ hookCalls (take k hooks) \<and> (k = 0) = (hooks = [])"
  using runHookFn_calls[of hooks st out st'] hooksCalled_prefix[of hooks "settings st" "history st"]
  by auto

lemma runHookFn_pass: "hooksPass hooks \<Longrightarrow> fst (runHookFn hooks st) = Normal"
proof (induction hooks arbitrary: st)
  case Nil
  then show ?case by simp
next
  case (Cons h hooks)
  then have ok: "\<And>bs evs. hook_fn h bs evs = HookOk" and rest: "hooksPass hooks"
    by (simp_all add: hooksPass_def)
  show ?case using Cons.IH[OF rest] by (simp add: ok Let_def)
qed

section \<open>One step\<close>

lemma doStepDelay_frame:
  "browserSettings (doStepDelay st) = browserSettings st"
  "settings (doStepDelay st) = settings st"
  "steps (doStepDelay st) = steps st"
  "hook (doStepDelay st) = hook st"
  "recoverySteps (doStepDelay st) = recoverySteps st"
  "cancelRequested (doStepDelay st) = cancelRequested st"
  "interceptorAttached (doStepDelay st) = interceptorAttached st"
  "failed (doStepDelay st) = failed st"
  "summaryStep (doStepDelay st) = summaryStep st"
  "pending (doStepDelay st) = pending st"
  by (simp_all add: doStepDelay_def emit_def split: option.splits val.splits)

lemma doStepDelay_history:
  "\<exists>evs. history (doStepDelay st) = history st @ evs \<and> recoveryTries evs = []
         \<and> filter cleanupCall evs = []"
  by (simp add: doStepDelay_def emit_def split: option.splits val.splits)

lemma runStep_frame:
  "runStep step st = (step', st') \<Longrightarrow>
   browserSettings st' = browserSettings st \<and> settings st' = settings st \<and> steps st' = steps st
   \<and> hook st' = hook st \<and> recoverySteps st' = recoverySteps st
   \<and> cancelRequested st' = cancelRequested st \<and> interceptorAttached st' = interceptorAttached st
   \<and> pending st' = pending st"
  by (auto simp: runStep_def Let_def emit_def pushSummary_def doStepDelay_frame
      split: prod.splits option.splits)

lemma runStep_throws:
  assumes "bodyThrows step" and "runStep step st = (step', st')"
  shows "failed st' \<and> summaryStep st' = summaryStep st @ [\<lparr>stepName = name step, result = FAILED\<rparr>]"
proof -
  let ?bs = "settings st ++ options step"
  let ?evs = "history st @ [ObserverBeforeStep (name step)]"
  obtain err left where f: "fn step ?bs ?evs = (err, left)" by (cases "fn step ?bs ?evs")
  have "fst (fn step ?bs ?evs) \<noteq> None" using assms(1) unfolding bodyThrows_def by blast
  then have "err \<noteq> None" using f by simp
  then obtain e where "err = Some e" by blast
  then show ?thesis using assms(2) f
    by (auto simp: runStep_def Let_def emit_def pushSummary_def)
qed



section \<open>Calls of runStep that lost their race\<close>

lemma recoveryTries_append: "recoveryTries (xs @ ys) = recoveryTries xs @ recoveryTries ys"
  by (induction xs rule: recoveryTries.induct) simp_all

lemma background_Nil: "background []"
  by (simp add: background_def)

lemma background_append: "background xs \<Longrightarrow> background ys \<Longrightarrow> background (xs @ ys)"
  by (simp add: background_def recoveryTries_append)

text \<open>The two parts of an abandoned call, one after the other, are runStep.\<close>

lemma runStep_start_finish:
  "snd (runStep step st) = runStepFinish (fst (runStepStart step st)) (snd (runStepStart step st))"
proof -
  let ?bs = "settings st ++ options step"
  let ?evs = "history st @ [ObserverBeforeStep (name step)]"
  obtain err left where f: "fn step ?bs ?evs = (err, left)" by (cases "fn step ?bs ?evs")
  show ?thesis
    by (cases err)
       (simp_all add: runStep_def runStepStart_def runStepFinish_def Let_def emit_def
          pushSummary_def f)
qed

lemma runStepStart_frame:
  "runStepStart step st = (p, st') \<Longrightarrow>
   pendingStep p = name step \<and> savedSettings p = browserSettings st
   \<and> summaryStep st' = summaryStep st \<and> failed st' = failed st \<and> settings st' = settings st
   \<and> steps st' = steps st \<and> hook st' = hook st \<and> recoverySteps st' = recoverySteps st
   \<and> cancelRequested st' = cancelRequested st \<and> interceptorAttached st' = interceptorAttached st
   \<and> pending st' = pending st
   \<and> browserSettings st' = settings st ++ options step
   \<and> history st' = history st @ [ObserverBeforeStep (name step),
                                   StepFnCall (name step) (settings st ++ options step)]"
proof -
  let ?bs = "settings st ++ options step"
  let ?evs = "history st @ [ObserverBeforeStep (name step)]"
  assume a: "runStepStart step st = (p, st')"
  obtain err left where f: "fn step ?bs ?evs = (err, left)" by (cases "fn step ?bs ?evs")
  have "p = \<lparr> pendingStep = name step, savedSettings = browserSettings st, pendingError = err \<rparr>"
    and "st' = st\<lparr>browserSettings := ?bs,
                 history := history st @ [ObserverBeforeStep (name step), StepFnCall (name step) ?bs]\<rparr>"
    using a by (auto simp: runStepStart_def Let_def emit_def f)
  then show ?thesis by simp
qed

lemma runStepFinish_frame:
  "settings (runStepFinish p st) = settings st"
  "steps (runStepFinish p st) = steps st"
  "hook (runStepFinish p st) = hook st"
  "recoverySteps (runStepFinish p st) = recoverySteps st"
  "cancelRequested (runStepFinish p st) = cancelRequested st"
  "interceptorAttached (runStepFinish p st) = interceptorAttached st"
  "pending (runStepFinish p st) = pending st"
  "browserSettings (runStepFinish p st) = savedSettings p"
  by (simp_all add: runStepFinish_def Let_def emit_def pushSummary_def doStepDelay_frame
      split: option.splits)

lemma runStepFinish_summary:
  "summaryStep (runStepFinish p st) =
     summaryStep st @ [\<lparr>stepName = pendingStep p,
                        result = (if pendingError p = None then PASSED else FAILED)\<rparr>]"
  by (simp add: runStepFinish_def Let_def emit_def pushSummary_def doStepDelay_frame
      split: option.splits)

lemma runStepFinish_failed: "failed st \<Longrightarrow> failed (runStepFinish p st)"
  by (simp add: runStepFinish_def Let_def emit_def pushSummary_def doStepDelay_frame
      split: option.splits)

lemma runStepFinish_history:
  "\<exists>bg. history (runStepFinish p st) = history st @ bg \<and> background bg"
proof -
  obtain evs where d: "\<And>st. history (doStepDelay st) = history st @ evs st"
    "\<And>st. recoveryTries (evs st) = []" "\<And>st. filter cleanupCall (evs st) = []"
    using doStepDelay_history by metis
  show ?thesis
    by (cases "pendingError p")
       (simp_all add: runStepFinish_def Let_def emit_def pushSummary_def d background_def
          recoveryTries_append)
qed

lemma settlePending_frame:
  "settlePending env ps st = (still, st') \<Longrightarrow>
   settings st' = settings st \<and> steps st' = steps st \<and> hook st' = hook st
   \<and> recoverySteps st' = recoverySteps st \<and> cancelRequested st' = cancelRequested st
   \<and> interceptorAttached st' = interceptorAttached st \<and> pending st' = pending st
   \<and> (failed st \<longrightarrow> failed st')"
proof (induction ps arbitrary: st still)
  case Nil
  then show ?case by simp
next
  case (Cons p ps)
  show ?case
  proof (cases "settles env (pendingStep p) (history st)")
    case True
    then have "settlePending env ps (runStepFinish p st) = (still, st')"
      using Cons.prems by simp
    from Cons.IH[OF this] show ?thesis by (simp add: runStepFinish_frame runStepFinish_failed)
  next
    case False
    then obtain rest where "settlePending env ps st = (rest, st')"
      using Cons.prems by (auto split: prod.splits)
    from Cons.IH[OF this] show ?thesis .
  qed
qed

lemma settlePending_history:
  "settlePending env ps st = (still, st') \<Longrightarrow>
   \<exists>bg rows. history st' = history st @ bg \<and> background bg
             \<and> summaryStep st' = summaryStep st @ rows
             \<and> set rows \<subseteq> settledRow ` set ps \<and> set still \<subseteq> set ps"
proof (induction ps arbitrary: st still)
  case Nil
  then show ?case by (simp add: background_Nil)
next
  case (Cons p ps)
  show ?case
  proof (cases "settles env (pendingStep p) (history st)")
    case True
    then have "settlePending env ps (runStepFinish p st) = (still, st')"
      using Cons.prems by simp
    from Cons.IH[OF this] obtain bg rows where
      1: "history st' = history (runStepFinish p st) @ bg" "background bg"
         "summaryStep st' = summaryStep (runStepFinish p st) @ rows"
         "set rows \<subseteq> settledRow ` set ps" "set still \<subseteq> set ps" by blast
    obtain bg0 where 0: "history (runStepFinish p st) = history st @ bg0" "background bg0"
      using runStepFinish_history by blast
    have "history st' = history st @ (bg0 @ bg)" using 0 1 by simp
    moreover have "background (bg0 @ bg)" using 0 1 by (simp add: background_append)
    moreover have "summaryStep st' = summaryStep st @ (settledRow p # rows)"
      using 1 by (simp add: runStepFinish_summary settledRow_def)
    moreover have "set (settledRow p # rows) \<subseteq> settledRow ` set (p # ps)"
      using 1(4) by auto
    moreover have "set still \<subseteq> set (p # ps)" using 1(5) by auto
    ultimately show ?thesis by blast
  next
    case False
    then obtain rest where r: "settlePending env ps st = (rest, st')" and st: "still = p # rest"
      using Cons.prems by (auto split: prod.splits)
    from Cons.IH[OF r] obtain bg rows where
      1: "history st' = history st @ bg" "background bg"
         "summaryStep st' = summaryStep st @ rows"
         "set rows \<subseteq> settledRow ` set ps" "set rest \<subseteq> set ps" by blast
    have "set rows \<subseteq> settledRow ` set (p # ps)" using 1(4) by auto
    moreover have "set still \<subseteq> set (p # ps)" using 1(5) st by auto
    ultimately show ?thesis using 1(1,2,3) by blast
  qed
qed

lemma awaitPoint_idle: "\<not> cancelRequested st \<Longrightarrow> awaitPoint env st = st"
  by (simp add: awaitPoint_def)

lemma awaitPoint_frame:
  "settings (awaitPoint env st) = settings st"
  "steps (awaitPoint env st) = steps st"
  "hook (awaitPoint env st) = hook st"
  "recoverySteps (awaitPoint env st) = recoverySteps st"
  "cancelRequested (awaitPoint env st) = cancelRequested st"
  "interceptorAttached (awaitPoint env st) = interceptorAttached st"
proof -
  obtain still st1 where s: "settlePending env (pending st) st = (still, st1)"
    by (cases "settlePending env (pending st) st")
  note f = settlePending_frame[OF s]
  show "settings (awaitPoint env st) = settings st" using f by (simp add: awaitPoint_def s)
  show "steps (awaitPoint env st) = steps st" using f by (simp add: awaitPoint_def s)
  show "hook (awaitPoint env st) = hook st" using f by (simp add: awaitPoint_def s)
  show "recoverySteps (awaitPoint env st) = recoverySteps st"
    using f by (simp add: awaitPoint_def s)
  show "cancelRequested (awaitPoint env st) = cancelRequested st"
    using f by (simp add: awaitPoint_def s)
  show "interceptorAttached (awaitPoint env st) = interceptorAttached st"
    using f by (simp add: awaitPoint_def s)
qed

lemma awaitPoint_failed: "failed st \<Longrightarrow> failed (awaitPoint env st)"
proof -
  assume a: "failed st"
  obtain still st1 where s: "settlePending env (pending st) st = (still, st1)"
    by (cases "settlePending env (pending st) st")
  show ?thesis using settlePending_frame[OF s] a by (simp add: awaitPoint_def s)
qed

lemma awaitPoint_history:
  "\<exists>bg rows. history (awaitPoint env st) = history st @ bg \<and> background bg
      \<and> summaryStep (awaitPoint env st) = summaryStep st @ rows
      \<and> set rows \<subseteq> settledRow ` set (pending st)
      \<and> set (pending (awaitPoint env st)) \<subseteq> set (pending st)
      \<and> (\<not> cancelRequested st \<longrightarrow> bg = [] \<and> rows = [])"
proof (cases "cancelRequested st")
  case False
  then show ?thesis by (simp add: awaitPoint_idle background_Nil)
next
  case True
  obtain still st1 where s: "settlePending env (pending st) st = (still, st1)"
    by (cases "settlePending env (pending st) st")
  from settlePending_history[OF s] obtain bg rows where
    "history st1 = history st @ bg" "background bg" "summaryStep st1 = summaryStep st @ rows"
    "set rows \<subseteq> settledRow ` set (pending st)" "set still \<subseteq> set (pending st)"
    by blast
  then show ?thesis using True s by (auto simp: awaitPoint_def)
qed

section \<open>A step that fails\<close>

lemma executor_body_throws:
  assumes hooks: "hooksPass (beforeEach (hook st))"
    and gate: "gateOpen env step n"
    and nocancel: "\<not> cancelRequested st" "cancelRace env step = BodySettles"
    and throws: "bodyThrows step"
  shows "\<exists>step2 st2.
           hook st2 = hook st \<and> recoverySteps st2 = recoverySteps st
           \<and> cancelRequested st2 = cancelRequested st
           \<and> summaryStep st2 = summaryStep st @ [\<lparr>stepName = name step, result = FAILED\<rparr>]
           \<and> settings st2 = (settings st)(''tries'' \<mapsto> VNum 0)
           \<and> CallRecovery (name step) 0 \<in> set (history st2)
           \<and> executor env n step st =
               (if callRecovery env step (recoverySteps st) 0
                then (case runHookFn (afterEach (hook st)) (st2\<lparr>failed := False\<rparr>) of
                        (outcome4, st4) \<Rightarrow> (outcome4, step2, st4))
                else (Thrown (newError []), step2, st2\<lparr>failed := True\<rparr>))"
proof -
  obtain out1 st1 where h1: "runHookFn (beforeEach (hook st)) st = (out1, st1)"
    by (cases "runHookFn (beforeEach (hook st)) st")
  have out1: "out1 = Normal" using runHookFn_pass[OF hooks, of st] h1 by simp
  note f1 = runHookFn_frame[OF h1]
  have idle: "awaitPoint env st1 = st1" using f1 nocancel by (simp add: awaitPoint_idle)
  let ?st1c = "st1\<lparr>customContext := Some (name step)\<rparr>"
  obtain step2 st2 where r: "runStep step ?st1c = (step2, st2)" by (cases "runStep step ?st1c")
  note f2 = runStep_frame[OF r]
  note t2 = runStep_throws[OF throws r]
  let ?st3 = "emit [CallRecovery (name step) 0] (st2\<lparr>settings := (settings st2)(''tries'' \<mapsto> VNum 0)\<rparr>)"
  have same: "?st3\<lparr>failed := True\<rparr> = ?st3" using t2 by (simp add: emit_def)
  have ex: "executor env n step st =
      (if callRecovery env step (recoverySteps st) 0
       then (case runHookFn (afterEach (hook st)) (?st3\<lparr>failed := False\<rparr>) of
               (outcome4, st4) \<Rightarrow> (outcome4, step2, st4))
       else (Thrown (newError []), step2, ?st3\<lparr>failed := True\<rparr>))"
    unfolding same
    using gate nocancel f1 f2 t2
    by (auto simp: executor_def h1 out1 idle r gateOpen_def assignTries_def emit_def Let_def)
  show ?thesis
    by (intro exI[of _ step2] exI[of _ ?st3]) (simp add: ex f1 f2 t2 emit_def)
qed

text \<open>
  C2. A step that is run, whose body raises and whose recovery succeeds, does not end the
  traversal: the executor clears the failed flag, the summary gains exactly one FAILED row
  for the step, and, the afterEach hooks passing, the traversal goes on with the later
  steps in the declared order.
\<close>

theorem recovered_failure_continues:
  assumes "hooksPass (beforeEach (hook st))" and "hooksPass (afterEach (hook st))"
    and "gateOpen env step n"
    and "\<not> cancelRequested st" and "cancelRace env step = BodySettles"
    and "bodyThrows step"
    and "callRecovery env step (recoverySteps st) 0"
  shows "\<exists>step2 st2.
           executor env n step st = (Normal, step2, st2)
           \<and> \<not> failed st2
           \<and> summaryStep st2 = summaryStep st @ [\<lparr>stepName = name step, result = FAILED\<rparr>]
           \<and> stepIterator_run (executor env n) reached (step # later) st =
               stepIterator_run (executor env n) (reached @ [step2]) later st2"
proof -
  from executor_body_throws[OF assms(1) assms(3-6)] assms(7) obtain step2 st2 where
    s: "summaryStep st2 = summaryStep st @ [\<lparr>stepName = name step, result = FAILED\<rparr>]"
    and ex: "executor env n step st =
       (case runHookFn (afterEach (hook st)) (st2\<lparr>failed := False\<rparr>) of
          (outcome4, st4) \<Rightarrow> (outcome4, step2, st4))"
    by auto
  obtain out4 st4 where h: "runHookFn (afterEach (hook st)) (st2\<lparr>failed := False\<rparr>) = (out4, st4)"
    by (cases "runHookFn (afterEach (hook st)) (st2\<lparr>failed := False\<rparr>)")
  have "out4 = Normal" using runHookFn_pass[OF assms(2), of "st2\<lparr>failed := False\<rparr>"] h by simp
  then have ex4: "executor env n step st = (Normal, step2, st4)" using ex h by simp
  moreover have "\<not> failed st4" "summaryStep st4 = summaryStep st2"
    using runHookFn_frame[OF h] by simp_all
  ultimately show ?thesis using s by (intro exI[of _ step2] exI[of _ st4]) simp
qed

theorem recovered_failure_continues_witness:
  "hooksPass (beforeEach (hook (sampleTest [] [''B'' \<mapsto> [''recoverB'']] [])))
   \<and> hooksPass (afterEach (hook (sampleTest [] [''B'' \<mapsto> [''recoverB'']] [])))
   \<and> gateOpen (sampleEnv True) (sampleStep ''B'' throwing Map.empty) 1
   \<and> bodyThrows (sampleStep ''B'' throwing Map.empty)
   \<and> callRecovery (sampleEnv True) (sampleStep ''B'' throwing Map.empty)
        (recoverySteps (sampleTest [] [''B'' \<mapsto> [''recoverB'']] [])) 0
   \<and> (\<exists>step2 st2.
         executor (sampleEnv True) 1 (sampleStep ''B'' throwing Map.empty)
           (sampleTest [] [''B'' \<mapsto> [''recoverB'']] []) = (Normal, step2, st2)
         \<and> \<not> failed st2
         \<and> summaryStep st2 = [\<lparr>stepName = ''B'', result = FAILED\<rparr>]
         \<and> stepIterator_run (executor (sampleEnv True) 1) []
             [sampleStep ''B'' throwing Map.empty, sampleStep ''C'' passing Map.empty]
             (sampleTest [] [''B'' \<mapsto> [''recoverB'']] [])
           = stepIterator_run (executor (sampleEnv True) 1) [step2]
               [sampleStep ''C'' passing Map.empty] st2)"
  using recovered_failure_continues
    [where st = "sampleTest [] [''B'' \<mapsto> [''recoverB'']] []" and env = "sampleEnv True"
       and step = "sampleStep ''B'' throwing Map.empty" and n = 1 and reached = "[]"
       and later = "[sampleStep ''C'' passing Map.empty]"]
  by (simp add: hooksPass_def gateOpen_def bodyThrows_def callRecovery_def sample_defs)

text \<open>The whole iteration over the steps A, B, C, when B raises and its recovery succeeds.\<close>

lemma recovered_failure_scenario:
  "fst (runWithCancellation (sampleEnv True) 1
     (sampleTest [sampleStep ''A'' passing Map.empty, sampleStep ''B'' throwing Map.empty,
                  sampleStep ''C'' passing Map.empty] [''B'' \<mapsto> [''recoverB'']] [])) = Normal
   \<and> \<not> failed (snd (runWithCancellation (sampleEnv True) 1
     (sampleTest [sampleStep ''A'' passing Map.empty, sampleStep ''B'' throwing Map.empty,
                  sampleStep ''C'' passing Map.empty] [''B'' \<mapsto> [''recoverB'']] [])))
   \<and> summaryStep (snd (runWithCancellation (sampleEnv True) 1
     (sampleTest [sampleStep ''A'' passing Map.empty, sampleStep ''B'' throwing Map.empty,
                  sampleStep ''C'' passing Map.empty] [''B'' \<mapsto> [''recoverB'']] [])))
     = [\<lparr>stepName = ''A'', result = PASSED\<rparr>, \<lparr>stepName = ''B'', result = FAILED\<rparr>,
        \<lparr>stepName = ''C'', result = PASSED\<rparr>]"
  by (simp add: engine_defs sample_defs Let_def)

text \<open>
  What the engine does for a step that is run, whose body raises and for which no
  recovery sequence is registered, when the awaited calls of the cleanup return: the
  traversal ends at once with every later step unreached, the iteration raises, the failed
  flag is set, and the summary gains one FAILED row for the step and then, for each later
  step, the rows of \<open>emittedRows\<close>.
\<close>

lemma unrecovered_failure_aborts:
  assumes "hooksPass (beforeEach (hook st))"
    and "gateOpen env step n"
    and "\<not> cancelRequested st" and "cancelRace env step = BodySettles"
    and "bodyThrows step"
    and "recoverySteps st (name step) = None"
    and "detach env = None" and "observerAfter env = None"
  shows "\<exists>step2 st2 e st'.
           stepIterator_run (executor env n) reached (step # unreached) st =
             (Thrown (newError []), (reached @ [step2], unreached), st2)
           \<and> finishIteration env
               (stepIterator_run (executor env n) reached (step # unreached) st) = (Thrown e, st')
           \<and> failed st'
           \<and> summaryStep st' =
               summaryStep st @ [\<lparr>stepName = name step, result = FAILED\<rparr>]
                 @ concat (map (\<lambda>later. replicate (emittedRows later) (unexecutedRow later))
                               unreached)"
proof -
  have norec: "\<not> callRecovery env step (recoverySteps st) 0"
    using assms(6) by (simp add: callRecovery_def)
  from executor_body_throws[OF assms(1-5)] norec obtain step2 st2 where
    s: "summaryStep st2 = summaryStep st @ [\<lparr>stepName = name step, result = FAILED\<rparr>]"
    and c: "cancelRequested st2 = cancelRequested st"
    and ex: "executor env n step st = (Thrown (newError []), step2, st2\<lparr>failed := True\<rparr>)"
    by auto
  let ?st2 = "st2\<lparr>failed := True\<rparr>"
  have run: "stepIterator_run (executor env n) reached (step # unreached) st =
      (Thrown (newError []), (reached @ [step2], unreached), ?st2)"
    by (simp add: ex)
  have nc: "\<not> cancelRequested ?st2" using c assms(3) by simp
  let ?rows = "concat (map (\<lambda>later. replicate (emittedRows later) (unexecutedRow later)) unreached)"
  let ?st3 = "(emit [LoopUnexecutedSteps]
                 ((emit [InterceptorDetach] ?st2)\<lparr>interceptorAttached := False\<rparr>))
               \<lparr>summaryStep := summaryStep st2 @ ?rows\<rparr>"
  have a: "afterRunSteps env unreached ?st2 = (Normal, map resetRepeat unreached, ?st3)"
    using nc assms(7)
    by (simp add: afterRunSteps_def summarizeStepAfterStopRunning_def loopUnexecutedSteps_rows
        awaitPoint_idle emit_def)
  let ?st4 = "emit [ObserverAfter] (?st3\<lparr>steps := reached @ step2 # map resetRepeat unreached\<rparr>)"
  have nc4: "\<not> cancelRequested ?st4" using nc by (simp add: emit_def)
  obtain out5 st5 where h: "runHookFn (afterAll (hook ?st4)) ?st4 = (out5, st5)"
    by (cases "runHookFn (afterAll (hook ?st4)) ?st4")
  note f = runHookFn_frame[OF h]
  have nc5: "\<not> cancelRequested st5" using f nc4 by simp
  have fin: "finishIteration env (Thrown (newError []), (reached @ [step2], unreached), ?st2) =
      (case out5 of Thrown e' \<Rightarrow> (Thrown e', st5) | Normal \<Rightarrow> (Thrown (newError []), st5))"
  proof -
    have idle4: "awaitPoint env ?st4 = ?st4" using nc4 by (rule awaitPoint_idle)
    have idle5: "awaitPoint env st5 = st5" using nc5 by (rule awaitPoint_idle)
    show ?thesis
      by (cases out5) (simp_all add: finishIteration_def a Let_def assms(8) idle4 h idle5)
  qed
  have "failed st5" "summaryStep st5 = summaryStep st2 @ ?rows"
    using f by (simp_all add: emit_def)
  then show ?thesis using fin run s by (cases out5) auto
qed

text \<open>
  Scenario A of the specification: the steps A, B, C, when B raises and has no recovery.
\<close>

lemma scenario_A:
  "fst (runWithCancellation (sampleEnv True) 1
     (sampleTest [sampleStep ''A'' passing Map.empty, sampleStep ''B'' throwing Map.empty,
                  sampleStep ''C'' passing Map.empty] Map.empty [])) = Thrown (newError [])
   \<and> failed (snd (runWithCancellation (sampleEnv True) 1
     (sampleTest [sampleStep ''A'' passing Map.empty, sampleStep ''B'' throwing Map.empty,
                  sampleStep ''C'' passing Map.empty] Map.empty [])))
   \<and> summaryStep (snd (runWithCancellation (sampleEnv True) 1
     (sampleTest [sampleStep ''A'' passing Map.empty, sampleStep ''B'' throwing Map.empty,
                  sampleStep ''C'' passing Map.empty] Map.empty [])))
     = [\<lparr>stepName = ''A'', result = PASSED\<rparr>, \<lparr>stepName = ''B'', result = FAILED\<rparr>,
        \<lparr>stepName = ''C'', result = UNEXECUTED\<rparr>]"
  by (simp add: engine_defs sample_defs Let_def)

text \<open>
  C3. The code at the input on which it misses the claim: the steps A, B, C, where B
  raises and has no recovery and C carries a repeat descriptor that has not started. The
  iteration raises and the summary holds PASSED for A and FAILED for B; the claim promises
  an UNEXECUTED row for C, and the summary has none. It is the missing row of C1.
\<close>

theorem unrecovered_failure_repeat_step_unlisted:
  "fst (runWithCancellation (sampleEnv True) 1
      (sampleTest [sampleStep ''A'' passing Map.empty, sampleStep ''B'' throwing Map.empty,
                   sampleStep ''C'' passing [''repeat'' \<mapsto> VRepeat \<lparr>count = 2, iteration = 0\<rparr>]]
         Map.empty [])) = Thrown (newError [])
   \<and> summaryStep (snd (runWithCancellation (sampleEnv True) 1
      (sampleTest [sampleStep ''A'' passing Map.empty, sampleStep ''B'' throwing Map.empty,
                   sampleStep ''C'' passing [''repeat'' \<mapsto> VRepeat \<lparr>count = 2, iteration = 0\<rparr>]]
         Map.empty [])))
     = [\<lparr>stepName = ''A'', result = PASSED\<rparr>, \<lparr>stepName = ''B'', result = FAILED\<rparr>]
   \<and> unexecutedRows ''C'' (summaryStep (snd (runWithCancellation (sampleEnv True) 1
      (sampleTest [sampleStep ''A'' passing Map.empty, sampleStep ''B'' throwing Map.empty,
                   sampleStep ''C'' passing [''repeat'' \<mapsto> VRepeat \<lparr>count = 2, iteration = 0\<rparr>]]
         Map.empty [])))) = 0"
  by (simp add: engine_defs sample_defs Let_def unexecutedRows_def)

section \<open>A race that the cancellation signal wins\<close>

lemma executor_abandons:
  assumes hooks: "hooksPass (beforeEach (hook st))"
    and gate: "gateOpen env step n"
    and cancel: "cancelRequested st \<or> cancelRace env step = CancelWins"
  shows "\<exists>p st1 st2.
           runHookFn (beforeEach (hook st)) st = (Normal, st1)
           \<and> runStepStart step ((awaitPoint env st1)\<lparr>customContext := Some (name step)\<rparr>) = (p, st2)
           \<and> executor env n step st =
               (Normal, step, st2\<lparr>pending := pending st2 @ [p], cancelRequested := True\<rparr>)"
proof -
  obtain out1 st1 where h1: "runHookFn (beforeEach (hook st)) st = (out1, st1)"
    by (cases "runHookFn (beforeEach (hook st)) st")
  have out1: "out1 = Normal" using runHookFn_pass[OF hooks, of st] h1 by simp
  note f1 = runHookFn_frame[OF h1]
  let ?st1c = "(awaitPoint env st1)\<lparr>customContext := Some (name step)\<rparr>"
  obtain p st2 where r: "runStepStart step ?st1c = (p, st2)" by (cases "runStepStart step ?st1c")
  have c: "cancelRequested ?st1c \<or> cancelRace env step = CancelWins"
    using cancel f1 by (simp add: awaitPoint_frame)
  have "executor env n step st =
      (Normal, step, st2\<lparr>pending := pending st2 @ [p], cancelRequested := True\<rparr>)"
    using gate c by (auto simp: executor_def h1 out1 r gateOpen_def Let_def)
  then show ?thesis using h1 out1 r by blast
qed




text \<open>
  With the traversal of StepIterator.run, which goes on to the next step when the callback
  returns: the step after the abandoned one is reached with the state the callback left.
\<close>

lemma cancelled_race_traversal:
  assumes "hooksPass (beforeEach (hook st))" and "gateOpen env step n"
    and "cancelRace env step = CancelWins"
  shows "\<exists>st2. executor env n step st = (Normal, step, st2)
           \<and> stepIterator_run (executor env n) reached (step # later) st =
               stepIterator_run (executor env n) (reached @ [step]) later st2"
proof -
  from executor_abandons[OF assms(1,2)] assms(3) obtain st2 where
    "executor env n step st = (Normal, step, st2)" by blast
  then show ?thesis by simp
qed

text \<open>
  The whole iteration over the steps A, B, C, when the cancellation signal wins the race
  of B and the abandoned bodies settle while the iteration goes on: the body of C is
  called, and the summary holds a PASSED row for B and one for C.
\<close>

lemma cancelled_race_scenario:
  "summaryStep (snd (runWithCancellation cancellingEnv 1
      (sampleTest [sampleStep ''A'' passing Map.empty, sampleStep ''B'' passing Map.empty,
                   sampleStep ''C'' passing Map.empty] Map.empty [])))
     = [\<lparr>stepName = ''A'', result = PASSED\<rparr>, \<lparr>stepName = ''B'', result = PASSED\<rparr>,
        \<lparr>stepName = ''C'', result = PASSED\<rparr>]
   \<and> bodyCalls (history (snd (runWithCancellation cancellingEnv 1
      (sampleTest [sampleStep ''A'' passing Map.empty, sampleStep ''B'' passing Map.empty,
                   sampleStep ''C'' passing Map.empty] Map.empty []))))
     = [''A'', ''B'', ''C'']"
  by (simp add: engine_defs sample_defs Let_def)

section \<open>What an iteration keeps\<close>

lemma recoveryTries_hookCalls: "recoveryTries (hookCalls hooks) = []"
  by (induction hooks) (simp_all add: hookCalls_def)

lemma advances_refl: "advances st st"
  by (simp add: advances_def)

lemma advances_trans:
  assumes "advances st st1" and "advances st1 st2"
  shows "advances st st2"
proof -
  from assms(1) obtain evs1 where 1: "hook st1 = hook st" "history st1 = history st @ evs1"
    "set (recoveryTries evs1) \<subseteq> {0}"
    "settings st1 = (if recoveryTries evs1 = [] then settings st
                     else (settings st)(''tries'' \<mapsto> VNum 0))"
    unfolding advances_def by blast
  from assms(2) obtain evs2 where 2: "hook st2 = hook st1" "history st2 = history st1 @ evs2"
    "set (recoveryTries evs2) \<subseteq> {0}"
    "settings st2 = (if recoveryTries evs2 = [] then settings st1
                     else (settings st1)(''tries'' \<mapsto> VNum 0))"
    unfolding advances_def by blast
  have "history st2 = history st @ (evs1 @ evs2)" using 1 2 by simp
  moreover have "set (recoveryTries (evs1 @ evs2)) \<subseteq> {0}"
    using 1 2 by (simp add: recoveryTries_append)
  moreover have "settings st2 = (if recoveryTries (evs1 @ evs2) = [] then settings st
                     else (settings st)(''tries'' \<mapsto> VNum 0))"
    using 1 2 by (simp add: recoveryTries_append)
  ultimately show ?thesis using 1 2 unfolding advances_def by (intro conjI exI[of _ "evs1 @ evs2"]) simp_all
qed

lemma advances_quiet:
  "hook st' = hook st \<Longrightarrow> settings st' = settings st \<Longrightarrow> history st' = history st @ evs
   \<Longrightarrow> recoveryTries evs = [] \<Longrightarrow> advances st st'"
  unfolding advances_def by (intro conjI exI[of _ evs]) simp_all

lemma emit_advances: "recoveryTries evs = [] \<Longrightarrow> advances st (emit evs st)"
  by (rule advances_quiet[where evs = evs]) (simp_all add: emit_def)

lemma runHookFn_advances: "runHookFn hooks st = (out, st') \<Longrightarrow> advances st st'"
proof -
  assume h: "runHookFn hooks st = (out, st')"
  from runHookFn_history[OF h] obtain k where
    "history st' = history st @ hookCalls (take k hooks)" by blast
  then show ?thesis using runHookFn_frame[OF h]
    by (intro advances_quiet[where evs = "hookCalls (take k hooks)"])
       (simp_all add: recoveryTries_hookCalls)
qed

lemma runStep_advances: "runStep step st = (step', st') \<Longrightarrow> advances st st'"
proof -
  assume r: "runStep step st = (step', st')"
  obtain evs where d: "\<And>st. history (doStepDelay st) = history st @ evs st"
    "\<And>st. recoveryTries (evs st) = []"
    using doStepDelay_history by metis
  have "\<exists>evs. history st' = history st @ evs \<and> recoveryTries evs = []"
    using r
    by (auto simp: runStep_def Let_def emit_def pushSummary_def doStepDelay_frame d
        recoveryTries_append split: prod.splits option.splits)
  then show ?thesis using runStep_frame[OF r] by (auto intro: advances_quiet)
qed

lemma awaitPoint_advances: "advances st (awaitPoint env st)"
proof -
  from awaitPoint_history[of env st] obtain bg where
    "history (awaitPoint env st) = history st @ bg" "background bg" by blast
  then show ?thesis
    by (intro advances_quiet[where evs = bg]) (simp_all add: awaitPoint_frame background_def)
qed

lemma summarizeStepBeforeRun_advances: "advances st (summarizeStepBeforeRun step n st)"
  by (rule advances_quiet[where evs = "[]"])
     (simp_all add: summarizeStepBeforeRun_def pushSummary_def Let_def)

lemma advances_cancelRequested: "advances st st' \<Longrightarrow> advances st (st'\<lparr>cancelRequested := b\<rparr>)"
  by (simp add: advances_def)

lemma advances_failed: "advances st st' \<Longrightarrow> advances st (st'\<lparr>failed := b\<rparr>)"
  by (simp add: advances_def)

lemma advances_pending: "advances st st' \<Longrightarrow> advances st (st'\<lparr>pending := ps\<rparr>)"
  by (simp add: advances_def)

lemma advances_steps: "advances st st' \<Longrightarrow> advances st (st'\<lparr>steps := ss\<rparr>)"
  by (simp add: advances_def)

lemma advances_customContext: "advances st st' \<Longrightarrow> advances st (st'\<lparr>customContext := c\<rparr>)"
  by (simp add: advances_def)

lemma recovery_advances:
  "advances st (emit [CallRecovery nm 0] (st\<lparr>settings := (settings st)(''tries'' \<mapsto> VNum 0)\<rparr>))"
  unfolding advances_def by (intro conjI exI[of _ "[CallRecovery nm 0]"]) (simp_all add: emit_def)

lemma runStepStart_advances: "runStepStart step st = (p, st') \<Longrightarrow> advances st st'"
proof -
  assume r: "runStepStart step st = (p, st')"
  note f = runStepStart_frame[OF r]
  show ?thesis
    by (rule advances_quiet[where evs = "[ObserverBeforeStep (name step),
          StepFnCall (name step) (settings st ++ options step)]"]) (simp_all add: f)
qed

lemma executor_advances:
  assumes "executor env n step st = (out, step', st')"
  shows "advances st st'"
proof -
  obtain out1 st0 where h1: "runHookFn (beforeEach (hook st)) st = (out1, st0)"
    by (cases "runHookFn (beforeEach (hook st)) st")
  note a0 = runHookFn_advances[OF h1]
  define st1 where "st1 = awaitPoint env st0"
  have a1: "advances st st1"
    unfolding st1_def using advances_trans[OF a0 awaitPoint_advances] .
  let ?st1c = "st1\<lparr>customContext := Some (name step)\<rparr>"
  have a1c: "advances st ?st1c" using a1 by (rule advances_customContext)
  show ?thesis
  proof (cases out1)
    case (Thrown e)
    then have "st' = st0" using assms h1 by (auto simp: executor_def Let_def)
    then show ?thesis using a0 by simp
  next
    case Normal
    show ?thesis
    proof (cases "\<not> callCondition env step n")
      case True
      then have "st' = summarizeStepBeforeRun step n st1"
        using assms h1 Normal by (auto simp: executor_def Let_def st1_def)
      then show ?thesis
        using advances_trans[OF a1 summarizeStepBeforeRun_advances] by simp
    next
      case cond: False
      show ?thesis
      proof (cases "truthy (options step ''predicate'') \<and> \<not> callPredicate env step")
        case True
        then have "st' = st1"
          using assms h1 Normal cond by (auto simp: executor_def Let_def st1_def)
        then show ?thesis using a1 by simp
      next
        case pred: False
        show ?thesis
        proof (cases "cancelRequested st1 \<or> cancelRace env step = CancelWins")
          case True
          obtain p st2 where r: "runStepStart step ?st1c = (p, st2)"
            by (cases "runStepStart step ?st1c")
          have "st' = st2\<lparr>pending := pending st2 @ [p], cancelRequested := True\<rparr>"
            using assms h1 Normal cond pred True r
            by (auto simp: executor_def Let_def st1_def[symmetric])
          moreover have "advances st st2"
            using advances_trans[OF a1c runStepStart_advances[OF r]] .
          ultimately show ?thesis
            using advances_cancelRequested[OF advances_pending] by simp
        next
          case race: False
          obtain step2 st2 where r: "runStep step ?st1c = (step2, st2)"
            by (cases "runStep step ?st1c")
          note a2 = advances_trans[OF a1c runStep_advances[OF r]]
          show ?thesis
          proof (cases "cancelRace env step = CancelAfterSettle")
            case True
            then have "st' = st2\<lparr>cancelRequested := True\<rparr>"
              using assms h1 Normal cond pred race r
              by (auto simp: executor_def Let_def st1_def[symmetric])
            then show ?thesis using advances_cancelRequested[OF a2] by simp
          next
            case settle: False
            let ?st2b = "emit [CallRecovery (name step) 0]
                           (st2\<lparr>settings := (settings st2)(''tries'' \<mapsto> VNum 0)\<rparr>)"
            note a3 = advances_trans[OF a2 recovery_advances[of st2 "name step"]]
            show ?thesis
            proof (cases "failed st2")
              case notfailed: False
              obtain out4 st4 where h4: "runHookFn (afterEach (hook st2)) st2 = (out4, st4)"
                by (cases "runHookFn (afterEach (hook st2)) st2")
              have "st' = st4"
                using assms h1 Normal cond pred race r settle notfailed h4
                by (auto simp: executor_def Let_def st1_def[symmetric])
              then show ?thesis using advances_trans[OF a2 runHookFn_advances[OF h4]] by simp
            next
              case isfailed: True
              show ?thesis
              proof (cases "callRecovery env step (recoverySteps ?st2b) 0")
                case False
                then have "st' = ?st2b"
                  using assms h1 Normal cond pred race r settle isfailed
                  by (auto simp: executor_def assignTries_def Let_def st1_def[symmetric])
                then show ?thesis using a3 by simp
              next
                case True
                let ?st3 = "?st2b\<lparr>failed := False\<rparr>"
                obtain out4 st4 where h4: "runHookFn (afterEach (hook ?st3)) ?st3 = (out4, st4)"
                  by (cases "runHookFn (afterEach (hook ?st3)) ?st3")
                have "st' = st4"
                  using assms h1 Normal cond pred race r settle isfailed True h4
                  by (auto simp: executor_def assignTries_def Let_def st1_def[symmetric])
                then show ?thesis
                  using advances_trans[OF advances_failed[OF a3] runHookFn_advances[OF h4]] by simp
              qed
            qed
          qed
        qed
      qed
    qed
  qed
qed

lemma stepIterator_run_advances:
  "stepIterator_run (executor env n) reached unreached st = (out, iter, st') \<Longrightarrow> advances st st'"
proof (induction unreached arbitrary: reached st)
  case Nil
  then show ?case by (simp add: advances_refl)
next
  case (Cons step unreached)
  obtain out1 step1 st1 where e: "executor env n step st = (out1, step1, st1)"
    by (cases "executor env n step st")
  note a1 = executor_advances[OF e]
  show ?case
  proof (cases out1)
    case Normal
    then have "stepIterator_run (executor env n) (reached @ [step1]) unreached st1 = (out, iter, st')"
      using Cons.prems e by simp
    from advances_trans[OF a1 Cons.IH[OF this]] show ?thesis .
  next
    case (Thrown x)
    then have "st' = st1" using Cons.prems e by simp
    then show ?thesis using a1 by simp
  qed
qed

lemma tryBlock_advances:
  assumes "tryBlock env n st = (out, iter, st')"
  shows "advances st st'"
proof -
  let ?st1 = "emit (directives (settings st) @ [ObserverBefore, TestDataFeed]) st"
  have rt: "recoveryTries (directives (settings st) @ [ObserverBefore, TestDataFeed]) = []"
    by (simp add: directives_def recoveryTries_append)
  have a1: "advances st ?st1" using rt by (rule emit_advances)
  show ?thesis
  proof (cases "feed env")
    case False
    then have "st' = ?st1" using assms by (simp add: tryBlock_def Let_def)
    then show ?thesis using a1 by simp
  next
    case True
    obtain out2 st2 where h: "runHookFn (beforeAll (hook ?st1)) ?st1 = (out2, st2)"
      by (cases "runHookFn (beforeAll (hook ?st1)) ?st1")
    note a2 = advances_trans[OF a1 runHookFn_advances[OF h]]
    show ?thesis
    proof (cases out2)
      case (Thrown e)
      then have "st' = st2" using assms True h by (simp add: tryBlock_def Let_def)
      then show ?thesis using a2 by simp
    next
      case Normal
      then have "stepIterator_run (executor env n) [] (steps st2) st2 = (out, iter, st')"
        using assms True h by (simp add: tryBlock_def Let_def)
      from advances_trans[OF a2 stepIterator_run_advances[OF this]] show ?thesis .
    qed
  qed
qed

lemma enterIteration_advances: "advances st (enterIteration st)"
  by (rule advances_quiet[where evs = "[ReopenPage, InterceptorAttach]"])
     (simp_all add: enterIteration_def emit_def Let_def)

section \<open>The cleanup\<close>

lemma afterRunSteps_rejects:
  "detach env = Some e \<Longrightarrow>
   afterRunSteps env unreached st = (Thrown e, unreached, emit [InterceptorDetach] st)"
  by (simp add: afterRunSteps_def Let_def)

lemma afterRunSteps_returns:
  assumes "detach env = None"
  shows "\<exists>bg rows u1 st3.
           afterRunSteps env unreached st = (Normal, u1, st3)
           \<and> history st3 = history st @ [InterceptorDetach] @ bg @ [LoopUnexecutedSteps]
           \<and> background bg
           \<and> summaryStep st3 =
               snd (loopUnexecutedSteps summarizedUnexecutedStep unreached (summaryStep st @ rows))
           \<and> set rows \<subseteq> settledRow ` set (pending st)
           \<and> (\<not> cancelRequested st \<longrightarrow> bg = [] \<and> rows = [])
           \<and> hook st3 = hook st \<and> settings st3 = settings st
           \<and> cancelRequested st3 = cancelRequested st \<and> \<not> interceptorAttached st3
           \<and> set (pending st3) \<subseteq> set (pending st)"
proof -
  let ?sta = "(emit [InterceptorDetach] st)\<lparr>interceptorAttached := False\<rparr>"
  define st2 where "st2 = awaitPoint env ?sta"
  from awaitPoint_history[of env ?sta] obtain bg rows where
    b: "history st2 = history ?sta @ bg" "background bg"
       "summaryStep st2 = summaryStep ?sta @ rows"
       "set rows \<subseteq> settledRow ` set (pending ?sta)"
       "set (pending st2) \<subseteq> set (pending ?sta)"
       "\<not> cancelRequested ?sta \<longrightarrow> bg = [] \<and> rows = []"
    unfolding st2_def by blast
  have fr: "hook st2 = hook st" "settings st2 = settings st"
    "cancelRequested st2 = cancelRequested st" "\<not> interceptorAttached st2"
    unfolding st2_def by (simp_all add: awaitPoint_frame emit_def)
  obtain u1 summ1 where l:
    "loopUnexecutedSteps summarizedUnexecutedStep unreached (summaryStep st2) = (u1, summ1)"
    by (cases "loopUnexecutedSteps summarizedUnexecutedStep unreached (summaryStep st2)")
  let ?st3 = "(emit [LoopUnexecutedSteps] st2)\<lparr>summaryStep := summ1\<rparr>"
  have a: "afterRunSteps env unreached st = (Normal, u1, ?st3)"
    using assms l
    by (simp add: afterRunSteps_def summarizeStepAfterStopRunning_def Let_def st2_def[symmetric])
  have "history ?st3 = history st @ [InterceptorDetach] @ bg @ [LoopUnexecutedSteps]"
    using b(1) by (simp add: emit_def)
  moreover have "summaryStep ?st3 =
      snd (loopUnexecutedSteps summarizedUnexecutedStep unreached (summaryStep st @ rows))"
    using l b(3) by (simp add: emit_def)
  moreover have "set rows \<subseteq> settledRow ` set (pending st)" using b(4) by (simp add: emit_def)
  moreover have "\<not> cancelRequested st \<longrightarrow> bg = [] \<and> rows = []"
    using b(6) by (simp add: emit_def)
  moreover have "hook ?st3 = hook st" "settings ?st3 = settings st"
    "cancelRequested ?st3 = cancelRequested st" "\<not> interceptorAttached ?st3"
    using fr by (simp_all add: emit_def)
  moreover have "set (pending ?st3) \<subseteq> set (pending st)" using b(5) by (simp add: emit_def)
  ultimately show ?thesis using a b(2) by blast
qed

lemma finishIteration_cleanup:
  assumes f: "finishIteration env (outcome1, (reached, unreached), st1) = (out, st')"
  shows "hook st' = hook st1 \<and> settings st' = settings st1 \<and>
    (case detach env of
       Some e \<Rightarrow> out = Thrown e \<and> history st' = history st1 @ [InterceptorDetach]
                 \<and> summaryStep st' = summaryStep st1
     | None \<Rightarrow>
         \<not> interceptorAttached st'
         \<and> (\<exists>bg1 rows1.
               background bg1 \<and> set rows1 \<subseteq> settledRow ` set (pending st1)
               \<and> (\<not> cancelRequested st1 \<longrightarrow> bg1 = [] \<and> rows1 = [])
               \<and> (case observerAfter env of
                     Some e \<Rightarrow>
                       out = Thrown e
                       \<and> history st' = history st1 @ [InterceptorDetach] @ bg1
                            @ [LoopUnexecutedSteps, ObserverAfter]
                       \<and> summaryStep st' =
                           snd (loopUnexecutedSteps summarizedUnexecutedStep unreached
                                  (summaryStep st1 @ rows1))
                   | None \<Rightarrow>
                       (\<exists>bg2 bg3 rows2.
                          background bg2 \<and> background bg3
                          \<and> set rows2 \<subseteq> settledRow ` set (pending st1)
                          \<and> (\<not> cancelRequested st1 \<longrightarrow> bg2 = [] \<and> bg3 = [] \<and> rows2 = [])
                          \<and> history st' =
                              history st1 @ [InterceptorDetach] @ bg1
                                @ [LoopUnexecutedSteps, ObserverAfter] @ bg2
                                @ hookCalls (hooksCalled (afterAll (hook st1)) (settings st1)
                                    (history st1 @ [InterceptorDetach] @ bg1
                                       @ [LoopUnexecutedSteps, ObserverAfter] @ bg2))
                                @ bg3
                          \<and> summaryStep st' =
                              snd (loopUnexecutedSteps summarizedUnexecutedStep unreached
                                     (summaryStep st1 @ rows1)) @ rows2
                          \<and> (hooksPass (afterAll (hook st1)) \<longrightarrow> out = outcome1)))))"
proof -
  define st2 where "st2 = (case outcome1 of Normal \<Rightarrow> st1 | Thrown e \<Rightarrow> st1\<lparr>failed := True\<rparr>)"
  have s2: "summaryStep st2 = summaryStep st1" "history st2 = history st1" "hook st2 = hook st1"
    "settings st2 = settings st1" "pending st2 = pending st1"
    "cancelRequested st2 = cancelRequested st1"
    unfolding st2_def by (cases outcome1; simp)+
  show ?thesis
  proof (cases "detach env")
    case (Some e)
    have "afterRunSteps env unreached st2 = (Thrown e, unreached, emit [InterceptorDetach] st2)"
      using Some by (rule afterRunSteps_rejects)
    then have "out = Thrown e"
      "st' = (emit [InterceptorDetach] st2)\<lparr>steps := reached @ unreached\<rparr>"
      using f by (simp_all add: finishIteration_def Let_def st2_def[symmetric])
    then show ?thesis using Some s2 by (simp add: emit_def)
  next
    case None
    from afterRunSteps_returns[OF None, of unreached st2] obtain bg1 rows1 u1 st3 where
      a: "afterRunSteps env unreached st2 = (Normal, u1, st3)"
      and h3: "history st3 = history st2 @ [InterceptorDetach] @ bg1 @ [LoopUnexecutedSteps]"
      and b1: "background bg1"
      and r3: "summaryStep st3 =
               snd (loopUnexecutedSteps summarizedUnexecutedStep unreached (summaryStep st2 @ rows1))"
      and rows1: "set rows1 \<subseteq> settledRow ` set (pending st2)"
      and q1: "\<not> cancelRequested st2 \<longrightarrow> bg1 = [] \<and> rows1 = []"
      and f3: "hook st3 = hook st2" "settings st3 = settings st2"
        "cancelRequested st3 = cancelRequested st2" "\<not> interceptorAttached st3"
        "set (pending st3) \<subseteq> set (pending st2)"
      by blast
    define st4 where "st4 = emit [ObserverAfter] (st3\<lparr>steps := reached @ u1\<rparr>)"
    have f4: "hook st4 = hook st1" "settings st4 = settings st1"
      "cancelRequested st4 = cancelRequested st1" "\<not> interceptorAttached st4"
      "set (pending st4) \<subseteq> set (pending st1)"
      "history st4 = history st1 @ [InterceptorDetach] @ bg1 @ [LoopUnexecutedSteps, ObserverAfter]"
      "summaryStep st4 =
         snd (loopUnexecutedSteps summarizedUnexecutedStep unreached (summaryStep st1 @ rows1))"
      unfolding st4_def using f3 h3 r3 s2 by (simp_all add: emit_def)
    have p1: "background bg1" "set rows1 \<subseteq> settledRow ` set (pending st1)"
      "\<not> cancelRequested st1 \<longrightarrow> bg1 = [] \<and> rows1 = []"
      using b1 rows1 q1 s2 by simp_all
    show ?thesis
    proof (cases "observerAfter env")
      case (Some e)
      then have "out = Thrown e" "st' = st4"
        using f a by (simp_all add: finishIteration_def Let_def st2_def[symmetric] st4_def)
      then show ?thesis using None Some f4 p1 by auto
    next
      case oa: None
      define st4a where "st4a = awaitPoint env st4"
      from awaitPoint_history[of env st4] obtain bg2 rows2a where
        b2: "history st4a = history st4 @ bg2" "background bg2"
            "summaryStep st4a = summaryStep st4 @ rows2a"
            "set rows2a \<subseteq> settledRow ` set (pending st4)"
            "set (pending st4a) \<subseteq> set (pending st4)"
            "\<not> cancelRequested st4 \<longrightarrow> bg2 = [] \<and> rows2a = []"
        unfolding st4a_def by blast
      have f4a: "hook st4a = hook st1" "settings st4a = settings st1"
        "cancelRequested st4a = cancelRequested st1" "\<not> interceptorAttached st4a"
        unfolding st4a_def using f4 by (simp_all add: awaitPoint_frame)
      obtain out5 st5 where h: "runHookFn (afterAll (hook st1)) st4a = (out5, st5)"
        by (cases "runHookFn (afterAll (hook st1)) st4a")
      note f5 = runHookFn_frame[OF h]
      note c5 = runHookFn_calls[OF h]
      define st6 where "st6 = awaitPoint env st5"
      from awaitPoint_history[of env st5] obtain bg3 rows2b where
        b3: "history st6 = history st5 @ bg3" "background bg3"
            "summaryStep st6 = summaryStep st5 @ rows2b"
            "set rows2b \<subseteq> settledRow ` set (pending st5)"
            "\<not> cancelRequested st5 \<longrightarrow> bg3 = [] \<and> rows2b = []"
        unfolding st6_def by blast
      have f6: "hook st6 = hook st1" "settings st6 = settings st1" "\<not> interceptorAttached st6"
        unfolding st6_def using f5 f4a by (simp_all add: awaitPoint_frame)
      have fin: "finishIteration env (outcome1, (reached, unreached), st1) =
                   (case out5 of Thrown e \<Rightarrow> (Thrown e, st6) | Normal \<Rightarrow> (outcome1, st6))"
        using a oa h f4(1) unfolding st6_def
        by (simp add: finishIteration_def Let_def st2_def[symmetric] st4_def[symmetric]
            st4a_def[symmetric])
      have st': "st' = st6" using f fin by (cases out5) simp_all
      have out: "hooksPass (afterAll (hook st1)) \<longrightarrow> out = outcome1"
      proof
        assume "hooksPass (afterAll (hook st1))"
        from runHookFn_pass[OF this, of st4a] have "out5 = Normal" using h by simp
        then show "out = outcome1" using f fin by simp
      qed
      let ?pre = "history st1 @ [InterceptorDetach] @ bg1 @ [LoopUnexecutedSteps, ObserverAfter] @ bg2"
      have pre: "history st4a = ?pre" using b2(1) f4(6) by simp
      have hist: "history st6 = ?pre
          @ hookCalls (hooksCalled (afterAll (hook st1)) (settings st1) ?pre) @ bg3"
        using b3(1) c5 pre f4a(2) by simp
      have summ: "summaryStep st6 =
          snd (loopUnexecutedSteps summarizedUnexecutedStep unreached (summaryStep st1 @ rows1))
            @ (rows2a @ rows2b)"
        using b3(3) f5 b2(3) f4(7) by simp
      have rows2: "set (rows2a @ rows2b) \<subseteq> settledRow ` set (pending st1)"
      proof -
        have "set rows2a \<subseteq> settledRow ` set (pending st1)" using b2(4) f4(5) by blast
        moreover have "set (pending st5) \<subseteq> set (pending st1)" using f5 b2(5) f4(5) by auto
        then have "set rows2b \<subseteq> settledRow ` set (pending st1)" using b3(4) by blast
        ultimately show ?thesis by simp
      qed
      have quiet: "\<not> cancelRequested st1 \<longrightarrow> bg2 = [] \<and> bg3 = [] \<and> rows2a @ rows2b = []"
        using b2(6) b3(5) f4(3) f5 f4a(3) by simp
      have "\<exists>bg2 bg3 rows2.
              background bg2 \<and> background bg3
              \<and> set rows2 \<subseteq> settledRow ` set (pending st1)
              \<and> (\<not> cancelRequested st1 \<longrightarrow> bg2 = [] \<and> bg3 = [] \<and> rows2 = [])
              \<and> history st' =
                  history st1 @ [InterceptorDetach] @ bg1
                    @ [LoopUnexecutedSteps, ObserverAfter] @ bg2
                    @ hookCalls (hooksCalled (afterAll (hook st1)) (settings st1)
                        (history st1 @ [InterceptorDetach] @ bg1
                           @ [LoopUnexecutedSteps, ObserverAfter] @ bg2))
                    @ bg3
              \<and> summaryStep st' =
                  snd (loopUnexecutedSteps summarizedUnexecutedStep unreached
                         (summaryStep st1 @ rows1)) @ rows2
              \<and> (hooksPass (afterAll (hook st1)) \<longrightarrow> out = outcome1)"
        using b2(2) b3(2) rows2 quiet hist summ out unfolding st'
        by (intro exI[of _ bg2] exI[of _ bg3] exI[of _ "rows2a @ rows2b"]) simp
      then have "\<exists>bg1 rows1.
               background bg1 \<and> set rows1 \<subseteq> settledRow ` set (pending st1)
               \<and> (\<not> cancelRequested st1 \<longrightarrow> bg1 = [] \<and> rows1 = [])
               \<and> (\<exists>bg2 bg3 rows2.
                          background bg2 \<and> background bg3
                          \<and> set rows2 \<subseteq> settledRow ` set (pending st1)
                          \<and> (\<not> cancelRequested st1 \<longrightarrow> bg2 = [] \<and> bg3 = [] \<and> rows2 = [])
                          \<and> history st' =
                              history st1 @ [InterceptorDetach] @ bg1
                                @ [LoopUnexecutedSteps, ObserverAfter] @ bg2
                                @ hookCalls (hooksCalled (afterAll (hook st1)) (settings st1)
                                    (history st1 @ [InterceptorDetach] @ bg1
                                       @ [LoopUnexecutedSteps, ObserverAfter] @ bg2))
                                @ bg3
                          \<and> summaryStep st' =
                              snd (loopUnexecutedSteps summarizedUnexecutedStep unreached
                                     (summaryStep st1 @ rows1)) @ rows2
                          \<and> (hooksPass (afterAll (hook st1)) \<longrightarrow> out = outcome1))"
        using p1 by blast
      then show ?thesis using None oa f6 st' by simp
    qed
  qed
qed

lemma finishIteration_advances:
  assumes f: "finishIteration env (outcome1, (reached, unreached), st1) = (out, st')"
  shows "advances st1 st'"
proof -
  note c = finishIteration_cleanup[OF f]
  show ?thesis
  proof (cases "detach env")
    case (Some e)
    then show ?thesis using c
      by (intro advances_quiet[where evs = "[InterceptorDetach]"]) simp_all
  next
    case None
    show ?thesis
    proof (cases "observerAfter env")
      case (Some e)
      then obtain bg1 where "background bg1"
        "history st' = history st1 @ [InterceptorDetach] @ bg1 @ [LoopUnexecutedSteps, ObserverAfter]"
        using c None by auto
      then show ?thesis using c
        by (intro advances_quiet[where evs = "[InterceptorDetach] @ bg1
              @ [LoopUnexecutedSteps, ObserverAfter]"])
           (simp_all add: recoveryTries_append background_def)
    next
      case oa: None
      then obtain bg1 bg2 bg3 hooks where "background bg1" "background bg2" "background bg3"
        "history st' = history st1 @ [InterceptorDetach] @ bg1
            @ [LoopUnexecutedSteps, ObserverAfter] @ bg2 @ hookCalls hooks @ bg3"
        using c None by auto
      then show ?thesis using c
        by (intro advances_quiet[where evs = "[InterceptorDetach] @ bg1
              @ [LoopUnexecutedSteps, ObserverAfter] @ bg2 @ hookCalls hooks @ bg3"])
           (simp_all add: recoveryTries_append background_def recoveryTries_hookCalls)
    qed
  qed
qed

lemma runWithCancellation_advances:
  assumes r: "runWithCancellation env n st = (out, st')"
  shows "advances st st'"
proof (cases "reopenPage env")
  case (Some e)
  then have "st' = emit [ReopenPage] st" using r by (simp add: runWithCancellation_def)
  then show ?thesis by (simp add: emit_advances)
next
  case None
  show ?thesis
  proof (cases "attach env")
    case (Some e)
    then have "st' = emit [ReopenPage, InterceptorAttach] st"
      using r None by (simp add: runWithCancellation_def)
    then show ?thesis by (simp add: emit_advances)
  next
    case at: None
    obtain outcome1 reached unreached st1 where
      t: "tryBlock env n (enterIteration st) = (outcome1, (reached, unreached), st1)"
      by (metis surj_pair)
    have a1: "advances st st1"
      using advances_trans[OF enterIteration_advances tryBlock_advances[OF t]] .
    have "finishIteration env (outcome1, (reached, unreached), st1) = (out, st')"
      using r t None at by (simp add: runWithCancellation_def)
    from advances_trans[OF a1 finishIteration_advances[OF this]] show ?thesis .
  qed
qed

text \<open>
  C5 (as amended). In every iteration that has reopened its page and attached the
  interceptor, however the \<open>try\<close> block ends, the cleanup is started, and it goes on for
  as long as its awaited calls return. The detach of the interceptor is always called. If
  it rejects, the iteration raises its error and nothing else of the cleanup happens: no
  row is added to the summary. If it returns, the unexecuted steps are summarized and the
  observer gets its final \<open>after\<close>. If that rejects, the iteration raises its error and no
  afterAll hook is called. If it returns, the afterAll hooks are called in their order:
  the first always, each next one exactly when the one before has passed; and when all of
  them pass the iteration ends as the \<open>try\<close> block did. Between these calls only the
  abandoned calls of runStep of a cancelled iteration act, each adding the row of its
  step; with no cancellation nothing comes between them.
\<close>

theorem cleanup_runs_while_calls_return:
  assumes "reopenPage env = None" and "attach env = None"
  shows "(case tryBlock env n (enterIteration st) of
      (outcome1, (reached, unreached), st1) \<Rightarrow>
        (case runWithCancellation env n st of
           (out, st') \<Rightarrow>
             (case detach env of
                Some e \<Rightarrow> out = Thrown e \<and> history st' = history st1 @ [InterceptorDetach]
                          \<and> summaryStep st' = summaryStep st1
              | None \<Rightarrow>
                  \<not> interceptorAttached st'
                  \<and> (\<exists>bg1 rows1.
                        background bg1 \<and> set rows1 \<subseteq> settledRow ` set (pending st1)
                        \<and> (\<not> cancelRequested st1 \<longrightarrow> bg1 = [] \<and> rows1 = [])
                        \<and> (case observerAfter env of
                              Some e \<Rightarrow>
                                out = Thrown e
                                \<and> history st' = history st1 @ [InterceptorDetach] @ bg1
                                     @ [LoopUnexecutedSteps, ObserverAfter]
                                \<and> summaryStep st' =
                                    snd (loopUnexecutedSteps summarizedUnexecutedStep unreached
                                           (summaryStep st1 @ rows1))
                            | None \<Rightarrow>
                                (\<exists>bg2 bg3 rows2.
                                   background bg2 \<and> background bg3
                                   \<and> set rows2 \<subseteq> settledRow ` set (pending st1)
                                   \<and> (\<not> cancelRequested st1 \<longrightarrow>
                                         bg2 = [] \<and> bg3 = [] \<and> rows2 = [])
                                   \<and> history st' =
                                       history st1 @ [InterceptorDetach] @ bg1
                                         @ [LoopUnexecutedSteps, ObserverAfter] @ bg2
                                         @ hookCalls (hooksCalled (afterAll (hook st))
                                             (settings st1)
                                             (history st1 @ [InterceptorDetach] @ bg1
                                                @ [LoopUnexecutedSteps, ObserverAfter] @ bg2))
                                         @ bg3
                                   \<and> summaryStep st' =
                                       snd (loopUnexecutedSteps summarizedUnexecutedStep
                                              unreached (summaryStep st1 @ rows1)) @ rows2
                                   \<and> (hooksPass (afterAll (hook st)) \<longrightarrow>
                                         out = outcome1)))))))"
proof -
  obtain outcome1 reached unreached st1 where
    t: "tryBlock env n (enterIteration st) = (outcome1, (reached, unreached), st1)"
    by (metis surj_pair)
  obtain out st' where r: "runWithCancellation env n st = (out, st')"
    by (cases "runWithCancellation env n st")
  have "advances st st1"
    using advances_trans[OF enterIteration_advances tryBlock_advances[OF t]] .
  then have hk: "hook st1 = hook st" by (simp add: advances_def)
  have "finishIteration env (outcome1, (reached, unreached), st1) = (out, st')"
    using r t assms by (simp add: runWithCancellation_def)
  from finishIteration_cleanup[OF this] show ?thesis unfolding t r hk by simp
qed

theorem cleanup_runs_while_calls_return_witness:
  "reopenPage (sampleEnv True) = None \<and> attach (sampleEnv True) = None
   \<and> filter cleanupCall (history (snd (runWithCancellation (sampleEnv True) 1
       (sampleTest [sampleStep ''A'' passing Map.empty] Map.empty
          [\<lparr>hook_fn = (\<lambda>bs evs. HookOk), waitTimeout = 5\<rparr>,
           \<lparr>hook_fn = (\<lambda>bs evs. HookTimeout), waitTimeout = 7\<rparr>,
           \<lparr>hook_fn = (\<lambda>bs evs. HookOk), waitTimeout = 9\<rparr>]))))
     = [InterceptorDetach, LoopUnexecutedSteps, ObserverAfter, HookCall 5, HookCall 7]
   \<and> summaryStep (snd (runWithCancellation (sampleEnv True) 1
       (sampleTest [sampleStep ''A'' passing Map.empty] Map.empty
          [\<lparr>hook_fn = (\<lambda>bs evs. HookOk), waitTimeout = 5\<rparr>,
           \<lparr>hook_fn = (\<lambda>bs evs. HookTimeout), waitTimeout = 7\<rparr>,
           \<lparr>hook_fn = (\<lambda>bs evs. HookOk), waitTimeout = 9\<rparr>])))
     = [\<lparr>stepName = ''A'', result = PASSED\<rparr>]
   \<and> fst (runWithCancellation (sampleEnv True) 1
       (sampleTest [sampleStep ''A'' passing Map.empty] Map.empty
          [\<lparr>hook_fn = (\<lambda>bs evs. HookOk), waitTimeout = 5\<rparr>,
           \<lparr>hook_fn = (\<lambda>bs evs. HookTimeout), waitTimeout = 7\<rparr>,
           \<lparr>hook_fn = (\<lambda>bs evs. HookOk), waitTimeout = 9\<rparr>]))
     = Thrown (newError [])"
  using cleanup_runs_while_calls_return
    [where env = "sampleEnv True" and n = 1 and
        st = "sampleTest [sampleStep ''A'' passing Map.empty] Map.empty
          [\<lparr>hook_fn = (\<lambda>bs evs. HookOk), waitTimeout = 5\<rparr>,
           \<lparr>hook_fn = (\<lambda>bs evs. HookTimeout), waitTimeout = 7\<rparr>,
           \<lparr>hook_fn = (\<lambda>bs evs. HookOk), waitTimeout = 9\<rparr>]"]
  by (simp add: engine_defs sample_defs Let_def hookCalls_def)

text \<open>
  The claim as it was stated fails when the detach of the interceptor rejects, on the
  steps A, B, C of which B raises with no recovery: the cleanup stops at the detach. The
  unexecuted step C is not summarized, the observer gets no final \<open>after\<close>, and the
  afterAll hook is not called.
\<close>

theorem cleanup_counterexample:
  "filter cleanupCall (history (snd (runWithCancellation
       ((sampleEnv True)\<lparr>detach := Some (newError ''detach'')\<rparr>) 1
       (sampleTest [sampleStep ''A'' passing Map.empty, sampleStep ''B'' throwing Map.empty,
                    sampleStep ''C'' passing Map.empty] Map.empty
          [\<lparr>hook_fn = (\<lambda>bs evs. HookOk), waitTimeout = 5\<rparr>]))))
     = [InterceptorDetach]
   \<and> summaryStep (snd (runWithCancellation
       ((sampleEnv True)\<lparr>detach := Some (newError ''detach'')\<rparr>) 1
       (sampleTest [sampleStep ''A'' passing Map.empty, sampleStep ''B'' throwing Map.empty,
                    sampleStep ''C'' passing Map.empty] Map.empty
          [\<lparr>hook_fn = (\<lambda>bs evs. HookOk), waitTimeout = 5\<rparr>])))
     = [\<lparr>stepName = ''A'', result = PASSED\<rparr>, \<lparr>stepName = ''B'', result = FAILED\<rparr>]
   \<and> fst (runWithCancellation
       ((sampleEnv True)\<lparr>detach := Some (newError ''detach'')\<rparr>) 1
       (sampleTest [sampleStep ''A'' passing Map.empty, sampleStep ''B'' throwing Map.empty,
                    sampleStep ''C'' passing Map.empty] Map.empty
          [\<lparr>hook_fn = (\<lambda>bs evs. HookOk), waitTimeout = 5\<rparr>]))
     = Thrown (newError ''detach'')"
  by (simp add: engine_defs sample_defs Let_def)

text \<open>
  Scenario B of the specification: a beforeAll hook with a wait of one second that never
  settles. The iteration raises before any step runs, and the summary holds an UNEXECUTED
  row for every step and nothing else.
\<close>

lemma scenario_B:
  "fst (runWithCancellation (sampleEnv True) 1
     ((sampleTest [sampleStep ''A'' passing Map.empty, sampleStep ''B'' passing Map.empty]
         Map.empty [])
      \<lparr>hook := \<lparr>beforeAll = [\<lparr>hook_fn = (\<lambda>bs evs. HookTimeout), waitTimeout = 1\<rparr>],
                afterAll = [], beforeEach = [], afterEach = []\<rparr>\<rparr>)) = Thrown (newError [])
   \<and> summaryStep (snd (runWithCancellation (sampleEnv True) 1
     ((sampleTest [sampleStep ''A'' passing Map.empty, sampleStep ''B'' passing Map.empty]
         Map.empty [])
      \<lparr>hook := \<lparr>beforeAll = [\<lparr>hook_fn = (\<lambda>bs evs. HookTimeout), waitTimeout = 1\<rparr>],
                afterAll = [], beforeEach = [], afterEach = []\<rparr>\<rparr>)))
     = [\<lparr>stepName = ''A'', result = UNEXECUTED\<rparr>, \<lparr>stepName = ''B'', result = UNEXECUTED\<rparr>]"
  by (simp add: engine_defs sample_defs Let_def)

section \<open>The tries of a recovery\<close>

text \<open>
  C10. Every call of callRecovery that an iteration makes carries the tries argument 0;
  and when the iteration has made such a call, whatever tries the settings held before,
  the settings at its end are the settings at its start with \<open>tries\<close> set to 0. With no
  such call the settings are unchanged. A step that is run and whose body raises makes
  the engine call callRecovery, with the tries 0, and leaves \<open>tries\<close> at 0.
\<close>

theorem recovery_tries_zero:
  "(case runWithCancellation env n st of
      (out, st') \<Rightarrow>
        (\<exists>evs. history st' = history st @ evs
           \<and> set (recoveryTries evs) \<subseteq> {0}
           \<and> settings st' = (if recoveryTries evs = [] then settings st
                             else (settings st)(''tries'' \<mapsto> VNum 0))))
   \<and> (hooksPass (beforeEach (hook st)) \<and> gateOpen env step n \<and> \<not> cancelRequested st
        \<and> cancelRace env step = BodySettles \<and> bodyThrows step \<longrightarrow>
       (case executor env n step st of
          (out, step', st') \<Rightarrow>
            CallRecovery (name step) 0 \<in> set (history st')
            \<and> settings st' = (settings st)(''tries'' \<mapsto> VNum 0)))"
proof (intro conjI impI)
  obtain out st' where r: "runWithCancellation env n st = (out, st')"
    by (cases "runWithCancellation env n st")
  from runWithCancellation_advances[OF r]
  show "case runWithCancellation env n st of
      (out, st') \<Rightarrow>
        (\<exists>evs. history st' = history st @ evs
           \<and> set (recoveryTries evs) \<subseteq> {0}
           \<and> settings st' = (if recoveryTries evs = [] then settings st
                             else (settings st)(''tries'' \<mapsto> VNum 0)))"
    by (simp add: r advances_def)
next
  assume h: "hooksPass (beforeEach (hook st)) \<and> gateOpen env step n \<and> \<not> cancelRequested st
        \<and> cancelRace env step = BodySettles \<and> bodyThrows step"
  then have "hooksPass (beforeEach (hook st))" "gateOpen env step n" "\<not> cancelRequested st"
    "cancelRace env step = BodySettles" "bodyThrows step" by simp_all
  from executor_body_throws[OF this] obtain step2 st2 where
    s: "settings st2 = (settings st)(''tries'' \<mapsto> VNum 0)"
    and c: "CallRecovery (name step) 0 \<in> set (history st2)"
    and ex: "executor env n step st =
               (if callRecovery env step (recoverySteps st) 0
                then (case runHookFn (afterEach (hook st)) (st2\<lparr>failed := False\<rparr>) of
                        (outcome4, st4) \<Rightarrow> (outcome4, step2, st4))
                else (Thrown (newError []), step2, st2\<lparr>failed := True\<rparr>))"
    by blast
  show "case executor env n step st of
          (out, step', st') \<Rightarrow>
            CallRecovery (name step) 0 \<in> set (history st')
            \<and> settings st' = (settings st)(''tries'' \<mapsto> VNum 0)"
  proof (cases "callRecovery env step (recoverySteps st) 0")
    case False
    then show ?thesis using ex s c by simp
  next
    case True
    obtain out4 st4 where
      h4: "runHookFn (afterEach (hook st)) (st2\<lparr>failed := False\<rparr>) = (out4, st4)"
      by (cases "runHookFn (afterEach (hook st)) (st2\<lparr>failed := False\<rparr>)")
    from runHookFn_history[OF h4] obtain k where
      "history st4 = history (st2\<lparr>failed := False\<rparr>) @ hookCalls (take k (afterEach (hook st)))"
      by blast
    then have "CallRecovery (name step) 0 \<in> set (history st4)" using c by simp
    moreover have "settings st4 = (settings st)(''tries'' \<mapsto> VNum 0)"
      using runHookFn_frame[OF h4] s by simp
    ultimately show ?thesis using ex True h4 by simp
  qed
qed

theorem recovery_tries_zero_witness:
  "recoveryTries (history (snd (runWithCancellation (sampleEnv True) 1
       (sampleTest [sampleStep ''A'' passing Map.empty, sampleStep ''B'' throwing Map.empty,
                    sampleStep ''C'' passing Map.empty]
          [''B'' \<mapsto> [''recoverB'']] [])))) = [0]
   \<and> settings (sampleTest [sampleStep ''A'' passing Map.empty, sampleStep ''B'' throwing Map.empty,
                    sampleStep ''C'' passing Map.empty]
          [''B'' \<mapsto> [''recoverB'']] []) ''tries'' = Some (VNum 3)
   \<and> settings (snd (runWithCancellation (sampleEnv True) 1
       (sampleTest [sampleStep ''A'' passing Map.empty, sampleStep ''B'' throwing Map.empty,
                    sampleStep ''C'' passing Map.empty]
          [''B'' \<mapsto> [''recoverB'']] []))) ''tries'' = Some (VNum 0)
   \<and> hooksPass (beforeEach (hook (sampleTest [sampleStep ''A'' passing Map.empty,
          sampleStep ''B'' throwing Map.empty, sampleStep ''C'' passing Map.empty]
          [''B'' \<mapsto> [''recoverB'']] [])))
   \<and> gateOpen (sampleEnv True) (sampleStep ''B'' throwing Map.empty) 1
   \<and> bodyThrows (sampleStep ''B'' throwing Map.empty)
   \<and> settings (snd (snd (executor (sampleEnv True) 1 (sampleStep ''B'' throwing Map.empty)
       (sampleTest [sampleStep ''A'' passing Map.empty, sampleStep ''B'' throwing Map.empty,
                    sampleStep ''C'' passing Map.empty]
          [''B'' \<mapsto> [''recoverB'']] [])))) ''tries'' = Some (VNum 0)"
  using recovery_tries_zero
    [where env = "sampleEnv True" and n = 1 and step = "sampleStep ''B'' throwing Map.empty" and
        st = "sampleTest [sampleStep ''A'' passing Map.empty, sampleStep ''B'' throwing Map.empty,
                    sampleStep ''C'' passing Map.empty]
          [''B'' \<mapsto> [''recoverB'']] []"]
  by (simp add: engine_defs sample_defs Let_def hooksPass_def gateOpen_def bodyThrows_def)

end
